theory Spec2Isabelle
  imports Main
begin

section \<open>The ring buffer of ring.go\<close>

text \<open>
  A shallow embedding of \<^verbatim>\<open>ring.go\<close>: the struct \<^verbatim>\<open>Ring[T]\<close> is a record, Go's
  \<^verbatim>\<open>int\<close> is \<open>int\<close> (every index the code computes is bounded by three times the
  length of the slice, so 64-bit wrap-around is out of reach), a nil receiver is \<open>None\<close>,
  and every method that assigns to the ring returns the ring as it is when the method
  returns or panics, next to its result. A panic is \<open>Inl\<close>.
\<close>

datatype panic =
    Msg string
  | OutOfRangeText int int
  | RuntimeIndexOutOfRange
  | RuntimeDivideByZero
  | RuntimeNilDereference
  | RuntimeSliceBounds
  | RuntimeMakeLen

record 'a ring =
  buf :: "'a list"
  head :: int
  tail :: int
  count :: int

text \<open>Go's \<^verbatim>\<open>%\<close> truncates towards zero: the result has the sign of the dividend.\<close>

definition go_rem :: "int \<Rightarrow> int \<Rightarrow> int" where
  "go_rem a b = sgn a * (\<bar>a\<bar> mod \<bar>b\<bar>)"

text \<open>\<^verbatim>\<open>len(r.buf)\<close>, and whether an index expression \<^verbatim>\<open>r.buf[i]\<close> is in range.\<close>

definition buf_len :: "'a ring \<Rightarrow> int" where
  "buf_len r = int (length (buf r))"

definition in_buf :: "'a ring \<Rightarrow> int \<Rightarrow> bool" where
  "in_buf r i = (0 \<le> i \<and> i < buf_len r)"

definition New :: "'a \<Rightarrow> int \<Rightarrow> panic + 'a ring" where
  "New z capacity =
     (if capacity < 0 then Inl RuntimeMakeLen
      else Inr \<lparr>buf = replicate (nat capacity) z, head = 0, tail = 0, count = 0\<rparr>)"

definition Cap :: "'a ring option \<Rightarrow> int" where
  "Cap ro = (case ro of None \<Rightarrow> 0 | Some r \<Rightarrow> buf_len r)"

definition Len :: "'a ring option \<Rightarrow> int" where
  "Len ro = (case ro of None \<Rightarrow> 0 | Some r \<Rightarrow> count r)"

definition Full :: "'a ring \<Rightarrow> bool" where
  "Full r = (count r = buf_len r)"

definition ring_prev :: "'a ring \<Rightarrow> int \<Rightarrow> panic + int" where
  "ring_prev r i =
     (let l = buf_len r in
      if l = 0 then Inl RuntimeDivideByZero else Inr (go_rem (i - 1 + l) l))"

definition ring_next :: "'a ring \<Rightarrow> int \<Rightarrow> panic + int" where
  "ring_next r i =
     (if buf_len r = 0 then Inl RuntimeDivideByZero else Inr (go_rem (i + 1) (buf_len r)))"

definition PushBack :: "'a ring \<Rightarrow> 'a \<Rightarrow> (panic + unit) \<times> 'a ring" where
  "PushBack r elem =
     (if \<not> in_buf r (tail r) then (Inl RuntimeIndexOutOfRange, r)
      else
        let r1 = r\<lparr>buf := (buf r)[nat (tail r) := elem]\<rparr> in
        case ring_next r1 (tail r1) of
          Inl e \<Rightarrow> (Inl e, r1)
        | Inr t \<Rightarrow>
            let r2 = r1\<lparr>tail := t\<rparr> in
            if count r2 = buf_len r2 then
              (case ring_next r2 (head r2) of
                 Inl e \<Rightarrow> (Inl e, r2)
               | Inr h \<Rightarrow> (Inr (), r2\<lparr>head := h\<rparr>))
            else (Inr (), r2\<lparr>count := count r2 + 1\<rparr>))"

definition PushFront :: "'a ring \<Rightarrow> 'a \<Rightarrow> (panic + unit) \<times> 'a ring" where
  "PushFront r elem =
     (case ring_prev r (head r) of
        Inl e \<Rightarrow> (Inl e, r)
      | Inr h \<Rightarrow>
          let r1 = r\<lparr>head := h\<rparr> in
          if \<not> in_buf r1 (head r1) then (Inl RuntimeIndexOutOfRange, r1)
          else
            let r2 = r1\<lparr>buf := (buf r1)[nat (head r1) := elem]\<rparr> in
            if count r2 = buf_len r2 then
              (case ring_prev r2 (tail r2) of
                 Inl e \<Rightarrow> (Inl e, r2)
               | Inr t \<Rightarrow> (Inr (), r2\<lparr>tail := t\<rparr>))
            else (Inr (), r2\<lparr>count := count r2 + 1\<rparr>))"

definition PopFront :: "'a \<Rightarrow> 'a ring \<Rightarrow> (panic + 'a) \<times> 'a ring" where
  "PopFront z r =
     (if count r \<le> 0 then (Inl (Msg ''PopFront called when empty''), r)
      else if \<not> in_buf r (head r) then (Inl RuntimeIndexOutOfRange, r)
      else
        let ret = buf r ! nat (head r);
            r1 = r\<lparr>buf := (buf r)[nat (head r) := z]\<rparr> in
        case ring_next r1 (head r1) of
          Inl e \<Rightarrow> (Inl e, r1)
        | Inr h \<Rightarrow> (Inr ret, r1\<lparr>head := h, count := count r1 - 1\<rparr>))"

definition PopBack :: "'a \<Rightarrow> 'a ring \<Rightarrow> (panic + 'a) \<times> 'a ring" where
  "PopBack z r =
     (if count r \<le> 0 then (Inl (Msg ''PopBack called when empty''), r)
      else
        case ring_prev r (tail r) of
          Inl e \<Rightarrow> (Inl e, r)
        | Inr t \<Rightarrow>
            let r1 = r\<lparr>tail := t\<rparr> in
            if \<not> in_buf r1 (tail r1) then (Inl RuntimeIndexOutOfRange, r1)
            else
              (Inr (buf r1 ! nat (tail r1)),
               r1\<lparr>buf := (buf r1)[nat (tail r1) := z], count := count r1 - 1\<rparr>))"

definition Front :: "'a ring \<Rightarrow> panic + 'a" where
  "Front r =
     (if count r \<le> 0 then Inl (Msg ''Front called when empty'')
      else if \<not> in_buf r (head r) then Inl RuntimeIndexOutOfRange
      else Inr (buf r ! nat (head r)))"

definition Back :: "'a ring \<Rightarrow> panic + 'a" where
  "Back r =
     (if count r \<le> 0 then Inl (Msg ''Back called when empty'')
      else
        case ring_prev r (tail r) of
          Inl e \<Rightarrow> Inl e
        | Inr t \<Rightarrow> if \<not> in_buf r t then Inl RuntimeIndexOutOfRange else Inr (buf r ! nat t))"

text \<open>
  \<^verbatim>\<open>At\<close> and \<^verbatim>\<open>Set\<close> test the index against \<^verbatim>\<open>r.Len()\<close>, which accepts a nil
  receiver, before they touch \<^verbatim>\<open>r.buf\<close>.
\<close>

definition slot_of :: "'a ring \<Rightarrow> int \<Rightarrow> panic + int" where
  "slot_of r i =
     (if buf_len r = 0 then Inl RuntimeDivideByZero
      else
        let k = go_rem (head r + i) (buf_len r) in
        if in_buf r k then Inr k else Inl RuntimeIndexOutOfRange)"

definition At :: "'a ring option \<Rightarrow> int \<Rightarrow> panic + 'a" where
  "At ro i =
     (if i < 0 \<or> i \<ge> Len ro then Inl (OutOfRangeText i (Len ro))
      else
        case ro of
          None \<Rightarrow> Inl RuntimeNilDereference
        | Some r \<Rightarrow> (case slot_of r i of Inl e \<Rightarrow> Inl e | Inr k \<Rightarrow> Inr (buf r ! nat k)))"

definition Set :: "'a ring option \<Rightarrow> int \<Rightarrow> 'a \<Rightarrow> (panic + unit) \<times> 'a ring option" where
  "Set ro i item =
     (if i < 0 \<or> i \<ge> Len ro then (Inl (OutOfRangeText i (Len ro)), ro)
      else
        case ro of
          None \<Rightarrow> (Inl RuntimeNilDereference, ro)
        | Some r \<Rightarrow>
            (case slot_of r i of
               Inl e \<Rightarrow> (Inl e, ro)
             | Inr k \<Rightarrow> (Inr (), Some (r\<lparr>buf := (buf r)[nat k := item]\<rparr>))))"

text \<open>
  \<^verbatim>\<open>Rotate\<close>: the two loops of the partly filled case move one element per step;
  \<open>l\<close> is the \<^verbatim>\<open>len(r.buf)\<close> read before the loops. In an assignment
  \<^verbatim>\<open>r.buf[a] = r.buf[b]\<close> both index expressions are checked before the store.
\<close>

fun rotate_back :: "'a \<Rightarrow> int \<Rightarrow> nat \<Rightarrow> 'a ring \<Rightarrow> (panic + unit) \<times> 'a ring" where
  "rotate_back z l 0 r = (Inr (), r)"
| "rotate_back z l (Suc k) r =
     (if l = 0 then (Inl RuntimeDivideByZero, r)
      else
        let r1 = r\<lparr>head := go_rem (head r - 1 + l) l\<rparr>;
            r2 = r1\<lparr>tail := go_rem (tail r1 - 1 + l) l\<rparr> in
        if \<not> in_buf r2 (tail r2) \<or> \<not> in_buf r2 (head r2) then (Inl RuntimeIndexOutOfRange, r2)
        else
          let r3 = r2\<lparr>buf := (buf r2)[nat (head r2) := buf r2 ! nat (tail r2)]\<rparr> in
          rotate_back z l k (r3\<lparr>buf := (buf r3)[nat (tail r3) := z]\<rparr>))"

fun rotate_fwd :: "'a \<Rightarrow> int \<Rightarrow> nat \<Rightarrow> 'a ring \<Rightarrow> (panic + unit) \<times> 'a ring" where
  "rotate_fwd z l 0 r = (Inr (), r)"
| "rotate_fwd z l (Suc k) r =
     (if \<not> in_buf r (head r) \<or> \<not> in_buf r (tail r) then (Inl RuntimeIndexOutOfRange, r)
      else
        let r1 = r\<lparr>buf := (buf r)[nat (tail r) := buf r ! nat (head r)]\<rparr>;
            r2 = r1\<lparr>buf := (buf r1)[nat (head r1) := z]\<rparr> in
        if l = 0 then (Inl RuntimeDivideByZero, r2)
        else
          let r3 = r2\<lparr>head := go_rem (head r2 + 1) l\<rparr> in
          rotate_fwd z l k (r3\<lparr>tail := go_rem (tail r3 + 1) l\<rparr>))"

definition rotate_ring :: "'a \<Rightarrow> 'a ring \<Rightarrow> int \<Rightarrow> (panic + unit) \<times> 'a ring" where
  "rotate_ring z r n =
     (if count r = 0 then (Inl RuntimeDivideByZero, r)
      else
        let n1 = go_rem n (count r) in
        if n1 = 0 then (Inr (), r)
        else
          let l = buf_len r in
          if head r = tail r then
            (if l = 0 then (Inl RuntimeDivideByZero, r)
             else
               let r1 = r\<lparr>head := go_rem (head r + n1 + l) l\<rparr> in
               (Inr (), r1\<lparr>tail := head r1\<rparr>))
          else if n1 < 0 then rotate_back z l (nat (- n1)) r
          else rotate_fwd z l (nat n1) r)"

definition Rotate :: "'a \<Rightarrow> 'a ring option \<Rightarrow> int \<Rightarrow> (panic + unit) \<times> 'a ring option" where
  "Rotate z ro n =
     (if Len ro \<le> 1 then (Inr (), ro)
      else
        case ro of
          None \<Rightarrow> (Inl RuntimeNilDereference, ro)
        | Some r \<Rightarrow> (case rotate_ring z r n of (res, r') \<Rightarrow> (res, Some r')))"

text \<open>
  \<^verbatim>\<open>Index\<close> and \<^verbatim>\<open>RIndex\<close>. \<open>index_loop r f i k\<close> is the loop of \<^verbatim>\<open>Index\<close> at
  counter \<open>i\<close> with \<open>k\<close> iterations left; \<open>rindex_loop r f l (Suc i)\<close> is the loop of
  \<^verbatim>\<open>RIndex\<close> at counter \<open>i\<close>, where \<open>l\<close> is the value the source stores in its local
  \<^verbatim>\<open>l\<close>.
\<close>

fun index_loop :: "'a ring \<Rightarrow> ('a \<Rightarrow> bool) \<Rightarrow> int \<Rightarrow> nat \<Rightarrow> panic + int" where
  "index_loop r f i 0 = Inr (- 1)"
| "index_loop r f i (Suc k) =
     (if buf_len r = 0 then Inl RuntimeDivideByZero
      else
        let s = go_rem (head r + i) (buf_len r) in
        if \<not> in_buf r s then Inl RuntimeIndexOutOfRange
        else if f (buf r ! nat s) then Inr i
        else index_loop r f (i + 1) k)"

definition Index :: "'a ring option \<Rightarrow> ('a \<Rightarrow> bool) \<Rightarrow> panic + int" where
  "Index ro f =
     (if Len ro > 0 then
        (case ro of
           None \<Rightarrow> Inl RuntimeNilDereference
         | Some r \<Rightarrow> index_loop r f 0 (nat (count r)))
      else Inr (- 1))"

fun rindex_loop :: "'a ring \<Rightarrow> ('a \<Rightarrow> bool) \<Rightarrow> int \<Rightarrow> nat \<Rightarrow> panic + int" where
  "rindex_loop r f l 0 = Inr (- 1)"
| "rindex_loop r f l (Suc i) =
     (if l = 0 then Inl RuntimeDivideByZero
      else
        let s = go_rem (head r + int i) l in
        if \<not> in_buf r s then Inl RuntimeIndexOutOfRange
        else if f (buf r ! nat s) then Inr (int i)
        else rindex_loop r f l i)"

definition RIndex :: "'a ring option \<Rightarrow> ('a \<Rightarrow> bool) \<Rightarrow> panic + int" where
  "RIndex ro f =
     (if Len ro > 0 then
        (let l = Len ro in
         case ro of
           None \<Rightarrow> Inl RuntimeNilDereference
         | Some r \<Rightarrow> rindex_loop r f l (nat (count r)))
      else Inr (- 1))"

text \<open>
  \<^verbatim>\<open>Insert\<close> and \<^verbatim>\<open>Remove\<close>. A swap \<^verbatim>\<open>r.buf[a], r.buf[b] = r.buf[b], r.buf[a]\<close>
  reads both slots before it stores, so an index out of range panics with the buffer as
  it was. \<open>swap_up\<close> is the loop that swaps a slot with its \<^verbatim>\<open>next\<close> (first loop of
  \<^verbatim>\<open>Insert\<close>, second loop of \<^verbatim>\<open>Remove\<close>); \<open>swap_down\<close> is the loop that swaps a
  slot with its \<^verbatim>\<open>prev\<close> (second loop of \<^verbatim>\<open>Insert\<close>, first loop of \<^verbatim>\<open>Remove\<close>).
\<close>

definition swap_slots :: "'a ring \<Rightarrow> int \<Rightarrow> int \<Rightarrow> panic + 'a ring" where
  "swap_slots r a b =
     (if in_buf r a \<and> in_buf r b then
        Inr (r\<lparr>buf := (buf r)[nat a := buf r ! nat b, nat b := buf r ! nat a]\<rparr>)
      else Inl RuntimeIndexOutOfRange)"

fun swap_up :: "nat \<Rightarrow> 'a ring \<Rightarrow> int \<Rightarrow> (panic + unit) \<times> 'a ring" where
  "swap_up 0 r pos = (Inr (), r)"
| "swap_up (Suc k) r pos =
     (case ring_next r pos of
        Inl e \<Rightarrow> (Inl e, r)
      | Inr nx \<Rightarrow>
          (case swap_slots r pos nx of
             Inl e \<Rightarrow> (Inl e, r)
           | Inr r' \<Rightarrow> swap_up k r' nx))"

fun swap_down :: "nat \<Rightarrow> 'a ring \<Rightarrow> int \<Rightarrow> (panic + unit) \<times> 'a ring" where
  "swap_down 0 r pos = (Inr (), r)"
| "swap_down (Suc k) r pos =
     (case ring_prev r pos of
        Inl e \<Rightarrow> (Inl e, r)
      | Inr pv \<Rightarrow>
          (case swap_slots r pos pv of
             Inl e \<Rightarrow> (Inl e, r)
           | Inr r' \<Rightarrow> swap_down k r' pv))"

definition Insert :: "'a ring \<Rightarrow> int \<Rightarrow> 'a \<Rightarrow> (panic + unit) \<times> 'a ring" where
  "Insert r at item =
     (if at < 0 \<or> at > count r then (Inl (OutOfRangeText at (Len (Some r))), r)
      else if Full r then (Inl (Msg ''cannot insert into full ring''), r)
      else if at * 2 < count r then
        (case PushFront r item of
           (Inl e, r1) \<Rightarrow> (Inl e, r1)
         | (Inr u, r1) \<Rightarrow> swap_up (nat at) r1 (head r1))
      else
        let swaps = count r - at in
        case PushBack r item of
          (Inl e, r1) \<Rightarrow> (Inl e, r1)
        | (Inr u, r1) \<Rightarrow>
            (case ring_prev r1 (tail r1) of
               Inl e \<Rightarrow> (Inl e, r1)
             | Inr back \<Rightarrow> swap_down (nat swaps) r1 back))"

definition Remove :: "'a \<Rightarrow> 'a ring \<Rightarrow> int \<Rightarrow> (panic + 'a) \<times> 'a ring" where
  "Remove z r at =
     (if at < 0 \<or> at \<ge> Len (Some r) then (Inl (OutOfRangeText at (Len (Some r))), r)
      else if buf_len r = 0 then (Inl RuntimeDivideByZero, r)
      else
        let rm = go_rem (head r + at) (buf_len r) in
        if at * 2 < count r then
          (case swap_down (nat at) r rm of
             (Inl e, r1) \<Rightarrow> (Inl e, r1)
           | (Inr u, r1) \<Rightarrow> PopFront z r1)
        else
          let swaps = count r - at - 1 in
          case swap_up (nat swaps) r rm of
            (Inl e, r1) \<Rightarrow> (Inl e, r1)
          | (Inr u, r1) \<Rightarrow> PopBack z r1)"

text \<open>\<^verbatim>\<open>Reset\<close>: \<open>reset_loop z l h i k\<close> is its loop at counter \<open>i\<close>, \<open>k\<close> iterations left.\<close>

fun reset_loop :: "'a \<Rightarrow> int \<Rightarrow> int \<Rightarrow> int \<Rightarrow> nat \<Rightarrow> 'a ring \<Rightarrow> (panic + unit) \<times> 'a ring" where
  "reset_loop z l h i 0 r = (Inr (), r)"
| "reset_loop z l h i (Suc k) r =
     (if l = 0 then (Inl RuntimeDivideByZero, r)
      else
        let s = go_rem (h + i) l in
        if \<not> in_buf r s then (Inl RuntimeIndexOutOfRange, r)
        else reset_loop z l h (i + 1) k (r\<lparr>buf := (buf r)[nat s := z]\<rparr>))"

definition Reset :: "'a \<Rightarrow> 'a ring \<Rightarrow> (panic + unit) \<times> 'a ring" where
  "Reset z r =
     (let l = buf_len r; h = head r in
      case reset_loop z l h 0 (nat (Len (Some r))) r of
        (Inl e, r1) \<Rightarrow> (Inl e, r1)
      | (Inr u, r1) \<Rightarrow> (Inr (), r1\<lparr>head := 0, tail := 0, count := 0\<rparr>))"

text \<open>
  \<^verbatim>\<open>Resize\<close>. \<open>go_slice xs lo hi\<close> is the slice expression \<^verbatim>\<open>xs[lo:hi]\<close> of a slice
  whose capacity is its length (as \<^verbatim>\<open>make([]T, n)\<close> gives); \<open>go_copy dst off src\<close> is
  \<^verbatim>\<open>copy(dst[off:], src)\<close> for \<open>off \<le> length dst\<close>: the number of elements copied, and
  \<open>dst\<close> after the copy.
\<close>

definition go_slice :: "'a list \<Rightarrow> int \<Rightarrow> int \<Rightarrow> panic + 'a list" where
  "go_slice xs lo hi =
     (if 0 \<le> lo \<and> lo \<le> hi \<and> hi \<le> int (length xs)
      then Inr (take (nat (hi - lo)) (drop (nat lo) xs))
      else Inl RuntimeSliceBounds)"

definition go_copy :: "'a list \<Rightarrow> nat \<Rightarrow> 'a list \<Rightarrow> int \<times> 'a list" where
  "go_copy dst off src =
     (let n = min (length dst - off) (length src) in
      (int n, take off dst @ take n src @ drop (off + n) dst))"

definition Resize :: "'a \<Rightarrow> 'a ring \<Rightarrow> int \<Rightarrow> (panic + unit) \<times> 'a ring" where
  "Resize z r newSize =
     (if count r = newSize then (Inr (), r)
      else if newSize < 0 then (Inl RuntimeMakeLen, r)
      else
        let newBuf = replicate (nat newSize) z in
        if tail r > head r then
          (case go_slice (buf r) (head r) (tail r) of
             Inl e \<Rightarrow> (Inl e, r)
           | Inr src \<Rightarrow>
               (case go_copy newBuf 0 src of
                  (n, nb) \<Rightarrow> (Inr (), r\<lparr>count := n, head := 0, tail := n, buf := nb\<rparr>)))
        else
          (case go_slice (buf r) (head r) (buf_len r) of
             Inl e \<Rightarrow> (Inl e, r)
           | Inr src \<Rightarrow>
               (case go_copy newBuf 0 src of
                  (n, nb) \<Rightarrow>
                    if n < buf_len r then
                      (case go_slice (buf r) 0 (tail r) of
                         Inl e \<Rightarrow> (Inl e, r)
                       | Inr src2 \<Rightarrow>
                           (case go_copy nb (nat n) src2 of
                              (n2, nb2) \<Rightarrow>
                                (Inr (), r\<lparr>count := n + n2, head := 0, tail := n + n2,
                                           buf := nb2\<rparr>)))
                    else (Inr (), r\<lparr>count := n, head := 0, tail := n, buf := nb\<rparr>))))"

section \<open>Invariants and the logical sequence\<close>

text \<open>
  The invariants of the data model: \<open>count\<close> is between 0 and the capacity, \<open>head\<close> and
  \<open>tail\<close> are slots of the storage, and \<open>tail\<close> is \<open>count\<close> slots after \<open>head\<close>, wrapping
  around. A ring of capacity zero has \<open>head = tail = 0\<close>.
\<close>

definition ring_inv :: "'a ring \<Rightarrow> bool" where
  "ring_inv r =
     (0 \<le> count r \<and> count r \<le> buf_len r \<and>
      (if buf_len r = 0 then head r = 0 \<and> tail r = 0
       else 0 \<le> head r \<and> head r < buf_len r \<and>
            tail r = (head r + count r) mod buf_len r))"

text \<open>
  \<^verbatim>\<open>Resize\<close> stores the number of copied elements in \<open>tail\<close> without wrapping it, so
  after it \<open>tail\<close> may equal the capacity. \<open>reach_inv\<close> is \<open>ring_inv\<close> with that one
  extra value of \<open>tail\<close> allowed.
\<close>

definition reach_inv :: "'a ring \<Rightarrow> bool" where
  "reach_inv r =
     (0 \<le> count r \<and> count r \<le> buf_len r \<and>
      (if buf_len r = 0 then head r = 0 \<and> tail r = 0
       else 0 \<le> head r \<and> head r < buf_len r \<and> 0 \<le> tail r \<and> tail r \<le> buf_len r \<and>
            tail r mod buf_len r = (head r + count r) mod buf_len r))"

text \<open>
  The logical sequence of a ring, front to back: as the storage holds it
  (\<open>contents\<close>), and as \<^verbatim>\<open>At\<close> returns it index by index (\<open>logical\<close>).
  \<open>lg r i\<close> is the storage slot \<open>i\<close> places after \<open>head\<close>, wrapping around, for
  every integer \<open>i\<close>.
\<close>

definition contents :: "'a ring \<Rightarrow> 'a list" where
  "contents r =
     map (\<lambda>i. buf r ! nat ((head r + int i) mod buf_len r)) [0..<nat (count r)]"

definition lg :: "'a ring \<Rightarrow> int \<Rightarrow> 'a" where
  "lg r i = buf r ! nat ((head r + i) mod buf_len r)"

definition logical :: "'a ring \<Rightarrow> (panic + 'a) list" where
  "logical r = map (\<lambda>i. At (Some r) (int i)) [0..<nat (Len (Some r))]"

text \<open>The storage slots that hold a logical element, and the property that all others
  hold the zero value \<open>z\<close>.\<close>

definition occupied :: "'a ring \<Rightarrow> nat list" where
  "occupied r = map (\<lambda>i. nat ((head r + int i) mod buf_len r)) [0..<nat (count r)]"

definition gaps_zero :: "'a \<Rightarrow> 'a ring \<Rightarrow> bool" where
  "gaps_zero z r =
     list_all (\<lambda>k. k \<in> set (occupied r) \<or> buf r ! k = z) [0..<length (buf r)]"

text \<open>
  The same property over logical positions: every position from \<open>count\<close> up to the
  capacity holds \<open>z\<close>. \<open>reach_ok\<close> is what every state of a ring satisfies.
\<close>

abbreviation gaps_lg :: "'a \<Rightarrow> 'a ring \<Rightarrow> bool" where
  "gaps_lg z r \<equiv> (\<forall>i. count r \<le> i \<and> i < buf_len r \<longrightarrow> lg r i = z)"

abbreviation reach_ok :: "'a \<Rightarrow> 'a ring \<Rightarrow> bool" where
  "reach_ok z r \<equiv> reach_inv r \<and> gaps_lg z r"

text \<open>
  The states a ring can be in: \<^verbatim>\<open>New\<close> makes one, and every method that assigns to
  the ring leads from one to the next, whether it returns or panics.
\<close>

inductive reachable :: "'a \<Rightarrow> 'a ring \<Rightarrow> bool" for z :: 'a where
  reach_New: "New z c = Inr r \<Longrightarrow> reachable z r"
| reach_PushBack: "reachable z r \<Longrightarrow> reachable z (snd (PushBack r v))"
| reach_PushFront: "reachable z r \<Longrightarrow> reachable z (snd (PushFront r v))"
| reach_PopFront: "reachable z r \<Longrightarrow> reachable z (snd (PopFront z r))"
| reach_PopBack: "reachable z r \<Longrightarrow> reachable z (snd (PopBack z r))"
| reach_Set: "reachable z r \<Longrightarrow> snd (Set (Some r) i v) = Some r' \<Longrightarrow> reachable z r'"
| reach_Rotate: "reachable z r \<Longrightarrow> snd (Rotate z (Some r) n) = Some r' \<Longrightarrow> reachable z r'"
| reach_Insert: "reachable z r \<Longrightarrow> reachable z (snd (Insert r at v))"
| reach_Remove: "reachable z r \<Longrightarrow> reachable z (snd (Remove z r at))"
| reach_Reset: "reachable z r \<Longrightarrow> reachable z (snd (Reset z r))"
| reach_Resize: "reachable z r \<Longrightarrow> reachable z (snd (Resize z r n))"

section \<open>Example states\<close>

text \<open>
  A ring of capacity 4 after \<^verbatim>\<open>New\<close>, after \<^verbatim>\<open>PushBack(7)\<close>, after
  \<^verbatim>\<open>PushBack(8)\<close> and after \<^verbatim>\<open>PopFront()\<close>; and what \<^verbatim>\<open>Resize(2)\<close> makes of
  the empty one.
\<close>

definition ex4_empty :: "int ring" where
  "ex4_empty = \<lparr>buf = [0, 0, 0, 0], head = 0, tail = 0, count = 0\<rparr>"

definition ex4_7 :: "int ring" where
  "ex4_7 = \<lparr>buf = [7, 0, 0, 0], head = 0, tail = 1, count = 1\<rparr>"

definition ex4_78 :: "int ring" where
  "ex4_78 = \<lparr>buf = [7, 8, 0, 0], head = 0, tail = 2, count = 2\<rparr>"

definition ex4_8 :: "int ring" where
  "ex4_8 = \<lparr>buf = [0, 8, 0, 0], head = 1, tail = 2, count = 1\<rparr>"

definition ex2_phantom :: "int ring" where
  "ex2_phantom = \<lparr>buf = [0, 0], head = 0, tail = 2, count = 2\<rparr>"


definition ex3_full :: "int ring" where
  "ex3_full = \<lparr>buf = [30, 10, 20], head = 1, tail = 1, count = 3\<rparr>"

definition ex5_3 :: "int ring" where
  "ex5_3 = \<lparr>buf = [30, 0, 0, 10, 20], head = 3, tail = 1, count = 3\<rparr>"

text \<open>
  A ring of capacity 3 filled by three calls of \<^verbatim>\<open>PushBack\<close>, and what
  \<^verbatim>\<open>Resize(2)\<close> makes of the full one.
\<close>

definition ex3_empty :: "int ring" where
  "ex3_empty = \<lparr>buf = [0, 0, 0], head = 0, tail = 0, count = 0\<rparr>"

definition ex3_1 :: "int ring" where
  "ex3_1 = \<lparr>buf = [1, 0, 0], head = 0, tail = 1, count = 1\<rparr>"

definition ex3_12 :: "int ring" where
  "ex3_12 = \<lparr>buf = [1, 2, 0], head = 0, tail = 2, count = 2\<rparr>"

definition ex3_123 :: "int ring" where
  "ex3_123 = \<lparr>buf = [1, 2, 3], head = 0, tail = 0, count = 3\<rparr>"

definition ex2_resized :: "int ring" where
  "ex2_resized = \<lparr>buf = [1, 2], head = 0, tail = 2, count = 2\<rparr>"

text \<open>
  The resized ring after \<^verbatim>\<open>PopFront()\<close>, after \<^verbatim>\<open>PushFront(3)\<close>, and after
  \<^verbatim>\<open>Rotate(-1)\<close>.
\<close>

definition ex2_popped :: "int ring" where
  "ex2_popped = \<lparr>buf = [0, 2], head = 1, tail = 2, count = 1\<rparr>"

definition ex2_front3 :: "int ring" where
  "ex2_front3 = \<lparr>buf = [1, 3], head = 1, tail = 1, count = 2\<rparr>"

definition ex2_rotated :: "int ring" where
  "ex2_rotated = \<lparr>buf = [1, 0], head = 1, tail = 1, count = 2\<rparr>"

section \<open>Arithmetic of slots\<close>

lemmas ex_defs = ex4_empty_def ex4_7_def ex4_78_def ex4_8_def ex2_phantom_def

lemmas op_defs = New_def PushBack_def PushFront_def PopFront_def PopBack_def Front_def
  Back_def At_def Set_def Index_def RIndex_def Len_def Cap_def Full_def slot_of_def
  ring_next_def ring_prev_def in_buf_def buf_len_def go_rem_def Let_def

lemma go_rem_nonneg: "0 \<le> a \<Longrightarrow> 0 < b \<Longrightarrow> go_rem a b = a mod b"
  by (cases "a = 0") (simp_all add: go_rem_def)

lemma slot_inj:
  fixes h l i j :: int
  assumes "0 \<le> i" "i < l" "0 \<le> j" "j < l" "(h + i) mod l = (h + j) mod l"
  shows "i = j"
proof (rule ccontr)
  assume ne: "i \<noteq> j"
  have d: "l dvd (i - j)" using assms(5) by (simp add: mod_eq_dvd_iff)
  show False
  proof (cases "j < i")
    case True
    then have "l \<le> i - j" using d by (simp add: zdvd_imp_le)
    then show False using assms by linarith
  next
    case False
    then have "0 < j - i" using ne by linarith
    moreover have "l dvd (j - i)" using d by (simp add: dvd_diff_commute)
    ultimately have "l \<le> j - i" by (simp add: zdvd_imp_le)
    then show False using assms by linarith
  qed
qed

lemma At_Some:
  assumes "reach_inv r" "0 \<le> i" "i < count r"
  shows "At (Some r) i = Inr (buf r ! nat ((head r + i) mod buf_len r))"
proof -
  have l: "0 < buf_len r" using assms by (simp add: reach_inv_def)
  have h: "0 \<le> head r" using assms l by (simp add: reach_inv_def)
  have "go_rem (head r + i) (buf_len r) = (head r + i) mod buf_len r"
    using h assms(2) l by (simp add: go_rem_nonneg)
  then show ?thesis using assms l
    by (simp add: At_def Len_def slot_of_def in_buf_def Let_def)
qed

lemma small_dvd_zero:
  fixes l d :: int
  assumes "l dvd d" "\<bar>d\<bar> < l"
  shows "d = 0"
  using assms by (metis abs_ge_zero dvd_imp_le_int less_le_not_le order_trans zabs_def)

lemma mod_zero_window:
  fixes l d :: int
  assumes "\<bar>d\<bar> < l"
  shows "(d mod l = 0) = (d = 0)"
  using assms small_dvd_zero[of l d] by auto

lemma slot_eq_iff:
  fixes h l i j :: int
  shows "((h + i) mod l = (h + j) mod l) = ((i - j) mod l = 0)"
  by (simp add: mod_eq_dvd_iff mod_eq_0_iff_dvd)

lemma lg_shift:
  assumes "buf r' = buf r" "head r' = (head r + d) mod buf_len r"
  shows "lg r' i = lg r (i + d)"
proof -
  have "((head r + d) mod buf_len r + i) mod buf_len r = (head r + (i + d)) mod buf_len r"
    by (simp add: mod_simps algebra_simps)
  then show ?thesis using assms by (simp add: lg_def buf_len_def)
qed

lemma lg_same:
  assumes "buf r' = buf r" "head r' = head r"
  shows "lg r' i = lg r i"
  using assms by (simp add: lg_def buf_len_def)

lemma lg_upd:
  assumes "0 \<le> s" "s < buf_len r" "buf r' = (buf r)[nat s := v]" "head r' = head r"
  shows "lg r' i = (if (head r + i) mod buf_len r = s then v else lg r i)"
proof -
  have l: "0 < buf_len r" using assms by simp
  have "0 \<le> (head r + i) mod buf_len r" "(head r + i) mod buf_len r < buf_len r"
    using l by simp_all
  then have "(nat s = nat ((head r + i) mod buf_len r)) = ((head r + i) mod buf_len r = s)"
    using assms(1) by (auto simp: eq_nat_nat_iff)
  moreover have "nat s < length (buf r)" using assms by (simp add: buf_len_def)
  ultimately show ?thesis using assms(3,4)
    by (simp add: lg_def nth_list_update buf_len_def)
qed

lemma lg_upd_slot:
  assumes "0 < buf_len r" "buf r' = (buf r)[nat ((head r + j) mod buf_len r) := v]"
    "head r' = head r"
  shows "lg r' i = (if (i - j) mod buf_len r = 0 then v else lg r i)"
  using lg_upd[of "(head r + j) mod buf_len r" r r' v i] assms
  by (simp add: slot_eq_iff)

lemma lg_periodic: "lg r (i + buf_len r) = lg r i"  "lg r (i - buf_len r) = lg r i"
proof -
  have "(head r + (i + buf_len r)) mod buf_len r = (head r + i) mod buf_len r"
    by (metis add.assoc mod_add_self2)
  then show "lg r (i + buf_len r) = lg r i" by (simp add: lg_def)
  have "(head r + (i - buf_len r)) mod buf_len r = (head r + (i - buf_len r) + buf_len r) mod buf_len r"
    by (metis mod_add_self2)
  then show "lg r (i - buf_len r) = lg r i" by (simp add: lg_def)
qed

lemma ring_next_eq:
  "0 < buf_len r \<Longrightarrow> 0 \<le> i \<Longrightarrow> ring_next r i = Inr ((i + 1) mod buf_len r)"
  by (simp add: ring_next_def go_rem_nonneg)

lemma ring_prev_eq:
  "0 < buf_len r \<Longrightarrow> 0 \<le> i \<Longrightarrow> ring_prev r i = Inr ((i - 1) mod buf_len r)"
proof -
  assume a: "0 < buf_len r" "0 \<le> i"
  have "(i - 1 + buf_len r) mod buf_len r = (i - 1) mod buf_len r" by simp
  then show ?thesis using a by (simp add: ring_prev_def go_rem_nonneg Let_def)
qed

lemma reach_inv_pos:
  assumes "reach_inv r" "0 < buf_len r"
  shows "0 \<le> head r" "head r < buf_len r" "0 \<le> tail r" "tail r \<le> buf_len r"
    "tail r mod buf_len r = (head r + count r) mod buf_len r" "0 \<le> count r" "count r \<le> buf_len r"
  using assms by (auto simp: reach_inv_def)

lemma ring_inv_iff: "ring_inv r = (reach_inv r \<and> (buf_len r = 0 \<or> tail r < buf_len r))"
proof (cases "buf_len r = 0")
  case True
  then show ?thesis by (simp add: ring_inv_def reach_inv_def)
next
  case False
  then have l: "0 < buf_len r" by (simp add: buf_len_def)
  have a: "0 \<le> (head r + count r) mod buf_len r" "(head r + count r) mod buf_len r < buf_len r"
    "(head r + count r) mod buf_len r \<le> buf_len r"
    using l by (simp_all add: less_imp_le)
  show ?thesis
  proof
    assume "ring_inv r"
    then show "reach_inv r \<and> (buf_len r = 0 \<or> tail r < buf_len r)"
      using False a by (simp add: ring_inv_def reach_inv_def)
  next
    assume b: "reach_inv r \<and> (buf_len r = 0 \<or> tail r < buf_len r)"
    then have "0 \<le> tail r" "tail r < buf_len r" using False by (simp_all add: reach_inv_def)
    then have "tail r mod buf_len r = tail r" by simp
    moreover have "tail r mod buf_len r = (head r + count r) mod buf_len r"
      using b False by (simp add: reach_inv_def)
    ultimately have "tail r = (head r + count r) mod buf_len r" by metis
    then show "ring_inv r" using b False by (simp add: ring_inv_def reach_inv_def)
  qed
qed

lemma ring_inv_reach: "ring_inv r \<Longrightarrow> reach_inv r"
  by (simp add: ring_inv_iff)

lemma tail_slot:
  assumes "reach_inv r" "tail r < buf_len r"
  shows "tail r = (head r + count r) mod buf_len r"
proof -
  have l: "0 < buf_len r" using assms by (auto simp: reach_inv_def split: if_splits)
  have "tail r mod buf_len r = tail r" using reach_inv_pos[OF assms(1) l] assms(2) by simp
  then show ?thesis using reach_inv_pos(5)[OF assms(1) l] by simp
qed

lemma PushBack_fail: "\<not> in_buf r (tail r) \<Longrightarrow> PushBack r v = (Inl RuntimeIndexOutOfRange, r)"
  by (simp add: PushBack_def)

lemma PushBack_nonfull:
  assumes "reach_inv r" "tail r < buf_len r" "count r < buf_len r"
  shows "PushBack r v = (Inr (), r\<lparr>buf := (buf r)[nat (tail r) := v],
            tail := (tail r + 1) mod buf_len r, count := count r + 1\<rparr>)"
proof -
  have l: "0 < buf_len r" using assms by (auto simp: reach_inv_def split: if_splits)
  note p = reach_inv_pos[OF assms(1) l]
  show ?thesis using p assms l
    by (simp add: PushBack_def in_buf_def ring_next_eq Let_def buf_len_def)
qed

lemma PushBack_full:
  assumes "reach_inv r" "tail r < buf_len r" "count r = buf_len r"
  shows "PushBack r v = (Inr (), r\<lparr>buf := (buf r)[nat (tail r) := v],
            tail := (tail r + 1) mod buf_len r, head := (head r + 1) mod buf_len r\<rparr>)"
proof -
  have l: "0 < buf_len r" using assms by (auto simp: reach_inv_def split: if_splits)
  note p = reach_inv_pos[OF assms(1) l]
  show ?thesis using p assms l
    by (simp add: PushBack_def in_buf_def ring_next_eq Let_def buf_len_def)
qed

lemma PushFront_fail: "buf_len r = 0 \<Longrightarrow> PushFront r v = (Inl RuntimeDivideByZero, r)"
  by (simp add: PushFront_def ring_prev_def)

lemma PushFront_nonfull:
  assumes "reach_inv r" "count r < buf_len r"
  shows "PushFront r v = (Inr (), r\<lparr>head := (head r - 1) mod buf_len r,
            buf := (buf r)[nat ((head r - 1) mod buf_len r) := v], count := count r + 1\<rparr>)"
proof -
  have l: "0 < buf_len r" using assms by (auto simp: reach_inv_def split: if_splits)
  note p = reach_inv_pos[OF assms(1) l]
  show ?thesis using p assms l
    by (simp add: PushFront_def in_buf_def ring_prev_eq Let_def buf_len_def)
qed

lemma PushFront_full:
  assumes "reach_inv r" "0 < buf_len r" "count r = buf_len r"
  shows "PushFront r v = (Inr (), r\<lparr>head := (head r - 1) mod buf_len r,
            buf := (buf r)[nat ((head r - 1) mod buf_len r) := v],
            tail := (tail r - 1) mod buf_len r\<rparr>)"
proof -
  note p = reach_inv_pos[OF assms(1,2)]
  show ?thesis using p assms
    by (simp add: PushFront_def in_buf_def ring_prev_eq Let_def buf_len_def)
qed

lemma PopFront_fail: "count r \<le> 0 \<Longrightarrow> PopFront z r = (Inl (Msg ''PopFront called when empty''), r)"
  by (simp add: PopFront_def)

lemma PopFront_ok:
  assumes "reach_inv r" "0 < count r"
  shows "PopFront z r = (Inr (lg r 0), r\<lparr>buf := (buf r)[nat (head r) := z],
            head := (head r + 1) mod buf_len r, count := count r - 1\<rparr>)"
proof -
  have l: "0 < buf_len r" using assms by (auto simp: reach_inv_def split: if_splits)
  note p = reach_inv_pos[OF assms(1) l]
  show ?thesis using p assms l
    by (simp add: PopFront_def in_buf_def ring_next_eq Let_def lg_def buf_len_def)
qed

lemma PopBack_fail: "count r \<le> 0 \<Longrightarrow> PopBack z r = (Inl (Msg ''PopBack called when empty''), r)"
  by (simp add: PopBack_def)

lemma PopBack_ok:
  assumes "reach_inv r" "0 < count r"
  shows "PopBack z r = (Inr (lg r (count r - 1)), r\<lparr>tail := (tail r - 1) mod buf_len r,
            buf := (buf r)[nat ((tail r - 1) mod buf_len r) := z], count := count r - 1\<rparr>)"
    and "(tail r - 1) mod buf_len r = (head r + (count r - 1)) mod buf_len r"
proof -
  have l: "0 < buf_len r" using assms by (auto simp: reach_inv_def split: if_splits)
  note p = reach_inv_pos[OF assms(1) l]
  have "(tail r - 1) mod buf_len r = (tail r mod buf_len r - 1) mod buf_len r"
    by (simp add: mod_simps)
  also have "\<dots> = (head r + (count r - 1)) mod buf_len r"
    using p(5) by (simp add: mod_simps algebra_simps)
  finally show t: "(tail r - 1) mod buf_len r = (head r + (count r - 1)) mod buf_len r" .
  show "PopBack z r = (Inr (lg r (count r - 1)), r\<lparr>tail := (tail r - 1) mod buf_len r,
            buf := (buf r)[nat ((tail r - 1) mod buf_len r) := z], count := count r - 1\<rparr>)"
    using p assms l t
    by (simp add: PopBack_def in_buf_def ring_prev_eq Let_def lg_def buf_len_def)
qed

lemma mod_zero_window2:
  fixes l d :: int
  shows "- l < d \<Longrightarrow> d < l \<Longrightarrow> (d mod l = 0) = (d = 0)"
  by (rule mod_zero_window) simp

lemma length_contents [simp]: "length (contents r) = nat (count r)"
  by (simp add: contents_def)

lemma contents_lg: "contents r = map (\<lambda>i. lg r (int i)) [0..<nat (count r)]"
  by (simp add: contents_def lg_def)

lemma contents_nth: "i < nat (count r) \<Longrightarrow> contents r ! i = lg r (int i)"
  by (simp add: contents_lg)

lemma At_lg:
  assumes "reach_inv r" "0 \<le> i" "i < count r"
  shows "At (Some r) i = Inr (lg r i)"
  using At_Some[OF assms] by (simp add: lg_def)

lemma logical_contents:
  assumes "reach_inv r"
  shows "logical r = map Inr (contents r)"
  by (simp add: logical_def contents_lg Len_def At_lg[OF assms])

lemma contents_eqI:
  assumes "length xs = nat (count r)" "\<And>i. i < nat (count r) \<Longrightarrow> lg r (int i) = xs ! i"
  shows "contents r = xs"
  using assms by (intro nth_equalityI) (simp_all add: contents_nth)

lemma PushBack_nonfull_lg:
  assumes "reach_inv r" "tail r < buf_len r" "count r < buf_len r" "PushBack r v = (res, r')"
  shows "res = Inr ()" "head r' = head r" "tail r' = (tail r + 1) mod buf_len r"
    "count r' = count r + 1" "buf_len r' = buf_len r"
    "\<And>i. 0 \<le> i \<Longrightarrow> i < buf_len r \<Longrightarrow> lg r' i = (if i = count r then v else lg r i)"
proof -
  have l: "0 < buf_len r" using assms by (auto simp: reach_inv_def split: if_splits)
  note p = reach_inv_pos[OF assms(1) l]
  have r': "r' = r\<lparr>buf := (buf r)[nat (tail r) := v],
            tail := (tail r + 1) mod buf_len r, count := count r + 1\<rparr>" and "res = Inr ()"
    using PushBack_nonfull[OF assms(1-3), of v] assms(4) by simp_all
  then show "res = Inr ()" "head r' = head r" "tail r' = (tail r + 1) mod buf_len r"
    "count r' = count r + 1" "buf_len r' = buf_len r"
    by (simp_all add: buf_len_def)
  fix i assume i: "0 \<le> i" "i < buf_len r"
  have "lg r' i = (if (i - count r) mod buf_len r = 0 then v else lg r i)"
    by (rule lg_upd_slot[OF l]) (simp_all add: r' tail_slot[OF assms(1,2), symmetric])
  moreover have "((i - count r) mod buf_len r = 0) = (i - count r = 0)"
    using i p assms(3) by (intro mod_zero_window2) linarith+
  ultimately show "lg r' i = (if i = count r then v else lg r i)" by simp
qed

lemma PushBack_full_lg:
  assumes "reach_inv r" "tail r < buf_len r" "count r = buf_len r" "PushBack r v = (res, r')"
  shows "res = Inr ()" "head r' = (head r + 1) mod buf_len r" "tail r' = (tail r + 1) mod buf_len r"
    "count r' = count r" "buf_len r' = buf_len r"
    "\<And>i. 0 \<le> i \<Longrightarrow> i < buf_len r \<Longrightarrow> lg r' i = (if i = buf_len r - 1 then v else lg r (i + 1))"
proof -
  have l: "0 < buf_len r" using assms by (auto simp: reach_inv_def split: if_splits)
  note p = reach_inv_pos[OF assms(1) l]
  define ra where "ra = r\<lparr>buf := (buf r)[nat (tail r) := v]\<rparr>"
  have r': "r' = r\<lparr>buf := (buf r)[nat (tail r) := v],
            tail := (tail r + 1) mod buf_len r, head := (head r + 1) mod buf_len r\<rparr>"
    and "res = Inr ()"
    using PushBack_full[OF assms(1-3), of v] assms(4) by simp_all
  then show "res = Inr ()" "head r' = (head r + 1) mod buf_len r" "tail r' = (tail r + 1) mod buf_len r"
    "count r' = count r" "buf_len r' = buf_len r"
    by (simp_all add: buf_len_def)
  fix i assume i: "0 \<le> i" "i < buf_len r"
  have la: "buf_len ra = buf_len r" by (simp add: ra_def buf_len_def)
  have a: "lg ra j = (if (j - count r) mod buf_len r = 0 then v else lg r j)" for j
    by (rule lg_upd_slot[OF l]) (simp_all add: ra_def tail_slot[OF assms(1,2), symmetric])
  have "lg r' i = lg ra (i + 1)"
    by (rule lg_shift) (simp_all add: r' ra_def buf_len_def)
  moreover have "((i + 1 - count r) mod buf_len r = 0) = (i + 1 - count r = 0)"
    using i p assms(3) by (intro mod_zero_window2) linarith+
  ultimately show "lg r' i = (if i = buf_len r - 1 then v else lg r (i + 1))"
    using a[of "i + 1"] assms(3) by auto
qed

lemma PushFront_lg:
  assumes "reach_inv r" "0 < buf_len r" "PushFront r v = (res, r')"
  shows "res = Inr ()" "head r' = (head r - 1) mod buf_len r"
    "tail r' = (if count r = buf_len r then (tail r - 1) mod buf_len r else tail r)"
    "count r' = (if count r = buf_len r then count r else count r + 1)" "buf_len r' = buf_len r"
    "\<And>i. 0 \<le> i \<Longrightarrow> i < buf_len r \<Longrightarrow> lg r' i = (if i = 0 then v else lg r (i - 1))"
proof -
  note l = assms(2)
  note p = reach_inv_pos[OF assms(1) l]
  define ra where "ra = r\<lparr>head := (head r - 1) mod buf_len r\<rparr>"
  have r': "buf r' = (buf r)[nat ((head r - 1) mod buf_len r) := v]"
    "head r' = (head r - 1) mod buf_len r"
    "tail r' = (if count r = buf_len r then (tail r - 1) mod buf_len r else tail r)"
    "count r' = (if count r = buf_len r then count r else count r + 1)"
    and res: "res = Inr ()"
    using PushFront_full[OF assms(1,2), of v] PushFront_nonfull[OF assms(1), of v] assms(3) p
    by (cases "count r = buf_len r"; simp; fail)+
  then show "res = Inr ()" "head r' = (head r - 1) mod buf_len r"
    "tail r' = (if count r = buf_len r then (tail r - 1) mod buf_len r else tail r)"
    "count r' = (if count r = buf_len r then count r else count r + 1)" "buf_len r' = buf_len r"
    by (simp_all add: buf_len_def)
  fix i assume i: "0 \<le> i" "i < buf_len r"
  have la: "buf_len ra = buf_len r" by (simp add: ra_def buf_len_def)
  have a: "lg ra j = lg r (j + (- 1))" for j
    by (rule lg_shift) (simp_all add: ra_def)
  have ra: "buf ra = buf r" "head ra = (head r - 1) mod buf_len r"
    by (simp_all add: ra_def)
  have "lg r' i = (if (i - 0) mod buf_len ra = 0 then v else lg ra i)"
    by (rule lg_upd_slot) (simp_all add: la l r' ra)
  moreover have "((i - 0) mod buf_len r = 0) = (i - 0 = 0)"
    using i by (intro mod_zero_window2) linarith+
  ultimately show "lg r' i = (if i = 0 then v else lg r (i - 1))"
    using a[of i] la by simp
qed

lemma PopFront_lg:
  assumes "reach_inv r" "0 < count r" "PopFront z r = (res, r')"
  shows "res = Inr (lg r 0)" "head r' = (head r + 1) mod buf_len r" "tail r' = tail r"
    "count r' = count r - 1" "buf_len r' = buf_len r"
    "\<And>i. 0 \<le> i \<Longrightarrow> i < buf_len r \<Longrightarrow> lg r' i = (if i = buf_len r - 1 then z else lg r (i + 1))"
proof -
  have l: "0 < buf_len r" using assms by (auto simp: reach_inv_def split: if_splits)
  note p = reach_inv_pos[OF assms(1) l]
  define ra where "ra = r\<lparr>buf := (buf r)[nat (head r) := z]\<rparr>"
  have r': "r' = r\<lparr>buf := (buf r)[nat (head r) := z],
            head := (head r + 1) mod buf_len r, count := count r - 1\<rparr>"
    and "res = Inr (lg r 0)"
    using PopFront_ok[OF assms(1,2), of z] assms(3) by simp_all
  then show "res = Inr (lg r 0)" "head r' = (head r + 1) mod buf_len r" "tail r' = tail r"
    "count r' = count r - 1" "buf_len r' = buf_len r"
    by (simp_all add: buf_len_def)
  fix i assume i: "0 \<le> i" "i < buf_len r"
  have la: "buf_len ra = buf_len r" by (simp add: ra_def buf_len_def)
  have a: "lg ra j = (if (j - 0) mod buf_len r = 0 then z else lg r j)" for j
    by (rule lg_upd_slot[OF l]) (simp_all add: ra_def p)
  have "lg r' i = lg ra (i + 1)"
    by (rule lg_shift) (simp_all add: r' ra_def buf_len_def)
  moreover have "((i + 1 - buf_len r) mod buf_len r = 0) = (i + 1 - buf_len r = 0)"
    using i by (intro mod_zero_window2) linarith+
  moreover have "(i + 1 - buf_len r) mod buf_len r = (i + 1) mod buf_len r"
    by simp
  ultimately show "lg r' i = (if i = buf_len r - 1 then z else lg r (i + 1))"
    using a[of "i + 1"] by auto
qed

lemma PopBack_lg:
  assumes "reach_inv r" "0 < count r" "PopBack z r = (res, r')"
  shows "res = Inr (lg r (count r - 1))" "head r' = head r" "tail r' = (tail r - 1) mod buf_len r"
    "count r' = count r - 1" "buf_len r' = buf_len r"
    "\<And>i. 0 \<le> i \<Longrightarrow> i < buf_len r \<Longrightarrow> lg r' i = (if i = count r - 1 then z else lg r i)"
proof -
  have l: "0 < buf_len r" using assms by (auto simp: reach_inv_def split: if_splits)
  note p = reach_inv_pos[OF assms(1) l]
  have r': "r' = r\<lparr>tail := (tail r - 1) mod buf_len r,
            buf := (buf r)[nat ((tail r - 1) mod buf_len r) := z], count := count r - 1\<rparr>"
    and "res = Inr (lg r (count r - 1))"
    using PopBack_ok(1)[OF assms(1,2), of z] assms(3) by simp_all
  then show "res = Inr (lg r (count r - 1))" "head r' = head r" "tail r' = (tail r - 1) mod buf_len r"
    "count r' = count r - 1" "buf_len r' = buf_len r"
    by (simp_all add: buf_len_def)
  fix i assume i: "0 \<le> i" "i < buf_len r"
  have "lg r' i = (if (i - (count r - 1)) mod buf_len r = 0 then z else lg r i)"
    by (rule lg_upd_slot[OF l]) (simp_all add: r' PopBack_ok(2)[OF assms(1,2)])
  moreover have "((i - (count r - 1)) mod buf_len r = 0) = (i - (count r - 1) = 0)"
    using i p assms(2) by (intro mod_zero_window2) linarith+
  ultimately show "lg r' i = (if i = count r - 1 then z else lg r i)" by auto
qed

lemma Set_lg:
  assumes "reach_inv r" "0 \<le> i" "i < count r" "Set (Some r) i v = (res, ro')"
  shows "\<exists>r'. ro' = Some r' \<and> res = Inr () \<and> head r' = head r \<and> tail r' = tail r \<and>
    count r' = count r \<and> buf_len r' = buf_len r \<and>
    (\<forall>j. 0 \<le> j \<and> j < buf_len r \<longrightarrow> lg r' j = (if j = i then v else lg r j))"
proof -
  have l: "0 < buf_len r" using assms by (auto simp: reach_inv_def split: if_splits)
  note p = reach_inv_pos[OF assms(1) l]
  define r' where "r' = r\<lparr>buf := (buf r)[nat ((head r + i) mod buf_len r) := v]\<rparr>"
  have g: "go_rem (head r + i) (buf_len r) = (head r + i) mod buf_len r"
    using p assms(2) l by (simp add: go_rem_nonneg)
  have s: "Set (Some r) i v = (Inr (), Some r')"
    using assms(2,3) l g by (simp add: Set_def Len_def slot_of_def in_buf_def Let_def r'_def)
  have "lg r' j = (if j = i then v else lg r j)" if j: "0 \<le> j" "j < buf_len r" for j
  proof -
    have "lg r' j = (if (j - i) mod buf_len r = 0 then v else lg r j)"
      by (rule lg_upd_slot[OF l]) (simp_all add: r'_def)
    moreover have "((j - i) mod buf_len r = 0) = (j - i = 0)"
      using j p assms(2,3) by (intro mod_zero_window2) linarith+
    ultimately show ?thesis by simp
  qed
  then show ?thesis using s assms(4) by (auto simp: r'_def buf_len_def)
qed

lemma reach_inv_cong:
  assumes "reach_inv r" "head r' = head r" "tail r' = tail r" "count r' = count r"
    "buf_len r' = buf_len r"
  shows "reach_inv r'"
  using assms by (simp add: reach_inv_def)

lemma ring_inv_pos:
  assumes "ring_inv r" "0 < buf_len r"
  shows "0 \<le> head r" "head r < buf_len r" "0 \<le> tail r" "tail r < buf_len r"
    "tail r = (head r + count r) mod buf_len r" "0 \<le> count r" "count r \<le> buf_len r"
  using assms by (auto simp: ring_inv_def)

lemma ring_invI:
  assumes "0 < buf_len r" "0 \<le> head r" "head r < buf_len r" "0 \<le> count r" "count r \<le> buf_len r"
    "tail r = (head r + count r) mod buf_len r"
  shows "ring_inv r"
  using assms by (simp add: ring_inv_def)

lemma mod_succ_eq:
  fixes a b l :: int
  assumes "a = b mod l"
  shows "(a + 1) mod l = (b + 1) mod l" "(a - 1) mod l = (b - 1) mod l"
  using assms by (simp_all add: mod_simps)

lemma slot_bounds:
  assumes "0 < buf_len r"
  shows "0 \<le> (head r + a) mod buf_len r" "(head r + a) mod buf_len r < buf_len r"
  using assms by simp_all

lemma swap_slots_lg:
  assumes l: "0 < buf_len r"
  shows "\<exists>r'. swap_slots r ((head r + a) mod buf_len r) ((head r + b) mod buf_len r) = Inr r' \<and>
     head r' = head r \<and> tail r' = tail r \<and> count r' = count r \<and> buf_len r' = buf_len r \<and>
     (\<forall>i. lg r' i = (if (i - b) mod buf_len r = 0 then lg r a
                      else if (i - a) mod buf_len r = 0 then lg r b else lg r i))"
proof -
  let ?sa = "(head r + a) mod buf_len r" and ?sb = "(head r + b) mod buf_len r"
  define ra where "ra = r\<lparr>buf := (buf r)[nat ?sa := lg r b]\<rparr>"
  define r' where "r' = r\<lparr>buf := (buf r)[nat ?sa := lg r b, nat ?sb := lg r a]\<rparr>"
  have ra: "buf ra = (buf r)[nat ?sa := lg r b]" "head ra = head r" "buf_len ra = buf_len r"
    by (simp_all add: ra_def buf_len_def)
  have r': "buf r' = (buf ra)[nat ((head ra + b) mod buf_len ra) := lg r a]" "head r' = head ra"
    by (simp_all add: r'_def ra)
  have a: "lg ra i = (if (i - a) mod buf_len r = 0 then lg r b else lg r i)" for i
    by (rule lg_upd_slot[OF l ra(1,2)])
  have b: "lg r' i = (if (i - b) mod buf_len ra = 0 then lg r a else lg ra i)" for i
    by (rule lg_upd_slot[OF _ r']) (simp add: ra l)
  have "swap_slots r ?sa ?sb = Inr r'"
    using slot_bounds[OF l] by (simp add: swap_slots_def in_buf_def r'_def lg_def)
  moreover have "head r' = head r" "tail r' = tail r" "count r' = count r" "buf_len r' = buf_len r"
    by (simp_all add: r'_def buf_len_def)
  ultimately show ?thesis using a b ra(3) by simp
qed

lemma slot_next: "0 < buf_len r \<Longrightarrow>
    ring_next r ((head r + j) mod buf_len r) = Inr ((head r + (j + 1)) mod buf_len r)"
  by (simp add: ring_next_eq mod_simps add.assoc)

lemma slot_prev: "0 < buf_len r \<Longrightarrow>
    ring_prev r ((head r + j) mod buf_len r) = Inr ((head r + (j - 1)) mod buf_len r)"
  by (simp add: ring_prev_eq mod_simps add_diff_eq)

lemma swap_up_lg:
  assumes "0 < buf_len r" "0 \<le> j" "j + int k < buf_len r"
  shows "\<exists>r'. swap_up k r ((head r + j) mod buf_len r) = (Inr (), r') \<and>
     head r' = head r \<and> tail r' = tail r \<and> count r' = count r \<and> buf_len r' = buf_len r \<and>
     (\<forall>i. 0 \<le> i \<and> i < buf_len r \<longrightarrow>
        lg r' i = (if j \<le> i \<and> i < j + int k then lg r (i + 1)
                   else if i = j + int k then lg r j else lg r i))"
  using assms
proof (induction k arbitrary: r j)
  case 0
  then show ?case by auto
next
  case (Suc k)
  note l = Suc.prems(1)
  from swap_slots_lg[OF l, of j "j + 1"] obtain r1 where r1:
    "swap_slots r ((head r + j) mod buf_len r) ((head r + (j + 1)) mod buf_len r) = Inr r1"
    "head r1 = head r" "tail r1 = tail r" "count r1 = count r" "buf_len r1 = buf_len r"
    "\<And>i. lg r1 i = (if (i - (j + 1)) mod buf_len r = 0 then lg r j
                      else if (i - j) mod buf_len r = 0 then lg r (j + 1) else lg r i)"
    by blast
  have w: "lg r1 i = (if i = j + 1 then lg r j else if i = j then lg r (j + 1) else lg r i)"
    if "0 \<le> i" "i < buf_len r" for i
  proof -
    have "((i - (j + 1)) mod buf_len r = 0) = (i - (j + 1) = 0)"
      using that Suc.prems by (intro mod_zero_window2) linarith+
    moreover have "((i - j) mod buf_len r = 0) = (i - j = 0)"
      using that Suc.prems by (intro mod_zero_window2) linarith+
    ultimately show ?thesis using r1(6)[of i] by simp
  qed
  have "\<exists>r'. swap_up k r1 ((head r1 + (j + 1)) mod buf_len r1) = (Inr (), r') \<and>
     head r' = head r1 \<and> tail r' = tail r1 \<and> count r' = count r1 \<and> buf_len r' = buf_len r1 \<and>
     (\<forall>i. 0 \<le> i \<and> i < buf_len r1 \<longrightarrow>
        lg r' i = (if j + 1 \<le> i \<and> i < j + 1 + int k then lg r1 (i + 1)
                   else if i = j + 1 + int k then lg r1 (j + 1) else lg r1 i))"
    using Suc.prems by (intro Suc.IH) (simp_all add: r1)
  then obtain r' where r':
    "swap_up k r1 ((head r + (j + 1)) mod buf_len r) = (Inr (), r')"
    "head r' = head r" "tail r' = tail r" "count r' = count r" "buf_len r' = buf_len r"
    "\<And>i. 0 \<le> i \<Longrightarrow> i < buf_len r \<Longrightarrow>
        lg r' i = (if j + 1 \<le> i \<and> i < j + 1 + int k then lg r1 (i + 1)
                   else if i = j + 1 + int k then lg r1 (j + 1) else lg r1 i)"
    by (auto simp: r1)
  have "swap_up (Suc k) r ((head r + j) mod buf_len r) = (Inr (), r')"
    using r1(1) r'(1) by (simp add: slot_next[OF l])
  moreover have "lg r' i = (if j \<le> i \<and> i < j + int (Suc k) then lg r (i + 1)
                   else if i = j + int (Suc k) then lg r j else lg r i)"
    if i: "0 \<le> i" "i < buf_len r" for i
  proof -
    consider "i < j" | "i = j" | "j < i" "i < j + 1 + int k" | "i = j + 1 + int k" | "j + 1 + int k < i"
      by linarith
    then show ?thesis
    proof cases
      case 1 then show ?thesis using r'(6)[OF i] w[OF i] by simp
    next
      case 2 then show ?thesis using r'(6)[OF i] w[OF i] by simp
    next
      case 3 then show ?thesis using r'(6)[OF i] w[of "i + 1"] i Suc.prems by simp
    next
      case 4 then show ?thesis using r'(6)[OF i] w[of "j + 1"] i Suc.prems by simp
    next
      case 5 then show ?thesis using r'(6)[OF i] w[OF i] Suc.prems by simp
    qed
  qed
  ultimately show ?case using r'(2-5) by blast
qed

lemma swap_down_lg:
  assumes "0 < buf_len r" "int k \<le> j" "j < buf_len r"
  shows "\<exists>r'. swap_down k r ((head r + j) mod buf_len r) = (Inr (), r') \<and>
     head r' = head r \<and> tail r' = tail r \<and> count r' = count r \<and> buf_len r' = buf_len r \<and>
     (\<forall>i. 0 \<le> i \<and> i < buf_len r \<longrightarrow>
        lg r' i = (if j - int k < i \<and> i \<le> j then lg r (i - 1)
                   else if i = j - int k then lg r j else lg r i))"
  using assms
proof (induction k arbitrary: r j)
  case 0
  then show ?case by auto
next
  case (Suc k)
  note l = Suc.prems(1)
  from swap_slots_lg[OF l, of j "j - 1"] obtain r1 where r1:
    "swap_slots r ((head r + j) mod buf_len r) ((head r + (j - 1)) mod buf_len r) = Inr r1"
    "head r1 = head r" "tail r1 = tail r" "count r1 = count r" "buf_len r1 = buf_len r"
    "\<And>i. lg r1 i = (if (i - (j - 1)) mod buf_len r = 0 then lg r j
                      else if (i - j) mod buf_len r = 0 then lg r (j - 1) else lg r i)"
    by blast
  have w: "lg r1 i = (if i = j - 1 then lg r j else if i = j then lg r (j - 1) else lg r i)"
    if "0 \<le> i" "i < buf_len r" for i
  proof -
    have "((i - (j - 1)) mod buf_len r = 0) = (i - (j - 1) = 0)"
      using that Suc.prems by (intro mod_zero_window2) linarith+
    moreover have "((i - j) mod buf_len r = 0) = (i - j = 0)"
      using that Suc.prems by (intro mod_zero_window2) linarith+
    ultimately show ?thesis using r1(6)[of i] by auto
  qed
  have "\<exists>r'. swap_down k r1 ((head r1 + (j - 1)) mod buf_len r1) = (Inr (), r') \<and>
     head r' = head r1 \<and> tail r' = tail r1 \<and> count r' = count r1 \<and> buf_len r' = buf_len r1 \<and>
     (\<forall>i. 0 \<le> i \<and> i < buf_len r1 \<longrightarrow>
        lg r' i = (if j - 1 - int k < i \<and> i \<le> j - 1 then lg r1 (i - 1)
                   else if i = j - 1 - int k then lg r1 (j - 1) else lg r1 i))"
    using Suc.prems by (intro Suc.IH) (simp_all add: r1)
  then obtain r' where r':
    "swap_down k r1 ((head r + (j - 1)) mod buf_len r) = (Inr (), r')"
    "head r' = head r" "tail r' = tail r" "count r' = count r" "buf_len r' = buf_len r"
    "\<And>i. 0 \<le> i \<Longrightarrow> i < buf_len r \<Longrightarrow>
        lg r' i = (if j - 1 - int k < i \<and> i \<le> j - 1 then lg r1 (i - 1)
                   else if i = j - 1 - int k then lg r1 (j - 1) else lg r1 i)"
    by (auto simp: r1)
  have "swap_down (Suc k) r ((head r + j) mod buf_len r) = (Inr (), r')"
    using r1(1) r'(1) by (simp add: slot_prev[OF l])
  moreover have "lg r' i = (if j - int (Suc k) < i \<and> i \<le> j then lg r (i - 1)
                   else if i = j - int (Suc k) then lg r j else lg r i)"
    if i: "0 \<le> i" "i < buf_len r" for i
  proof -
    consider "j < i" | "i = j" | "j - 1 - int k < i" "i < j" | "i = j - 1 - int k" | "i < j - 1 - int k"
      by linarith
    then show ?thesis
    proof cases
      case 1 then show ?thesis using r'(6)[OF i] w[OF i] by simp
    next
      case 2 then show ?thesis using r'(6)[OF i] w[OF i] by simp
    next
      case 3 then show ?thesis using r'(6)[OF i] w[of "i - 1"] i Suc.prems by simp
    next
      case 4 then show ?thesis using r'(6)[OF i] w[of "j - 1"] i Suc.prems by simp
    next
      case 5 then show ?thesis using r'(6)[OF i] w[OF i] Suc.prems by simp
    qed
  qed
  ultimately show ?case using r'(2-5) by blast
qed

lemma reach_invI:
  assumes "0 < buf_len r" "0 \<le> head r" "head r < buf_len r" "0 \<le> tail r" "tail r \<le> buf_len r"
    "0 \<le> count r" "count r \<le> buf_len r"
    "tail r mod buf_len r = (head r + count r) mod buf_len r"
  shows "reach_inv r"
  using assms by (simp add: reach_inv_def)

lemma Insert_fail:
  "at < 0 \<or> at > count r \<Longrightarrow> Insert r at v = (Inl (OutOfRangeText at (count r)), r)"
  "0 \<le> at \<Longrightarrow> at \<le> count r \<Longrightarrow> count r = buf_len r
     \<Longrightarrow> Insert r at v = (Inl (Msg ''cannot insert into full ring''), r)"
  by (auto simp: Insert_def Len_def Full_def)

lemma Insert_front_lg:
  assumes "reach_inv r" "count r < buf_len r" "0 \<le> at" "at \<le> count r" "at * 2 < count r"
    "Insert r at v = (res, r')"
  shows "res = Inr ()" "head r' = (head r - 1) mod buf_len r" "tail r' = tail r"
    "count r' = count r + 1" "buf_len r' = buf_len r"
    "\<And>i. 0 \<le> i \<Longrightarrow> i < buf_len r \<Longrightarrow>
       lg r' i = (if i < at then lg r i else if i = at then v else lg r (i - 1))"
proof -
  have l: "0 < buf_len r" using assms by (auto simp: reach_inv_def split: if_splits)
  note p = reach_inv_pos[OF assms(1) l]
  obtain res1 r1 where f: "PushFront r v = (res1, r1)" by (cases "PushFront r v")
  note F = PushFront_lg[OF assms(1) l f]
  have h1: "(head r1 + 0) mod buf_len r1 = head r1" using F(2,5) by simp
  have "\<exists>r'. swap_up (nat at) r1 ((head r1 + 0) mod buf_len r1) = (Inr (), r') \<and>
     head r' = head r1 \<and> tail r' = tail r1 \<and> count r' = count r1 \<and> buf_len r' = buf_len r1 \<and>
     (\<forall>i. 0 \<le> i \<and> i < buf_len r1 \<longrightarrow>
        lg r' i = (if 0 \<le> i \<and> i < 0 + int (nat at) then lg r1 (i + 1)
                   else if i = 0 + int (nat at) then lg r1 0 else lg r1 i))"
    using assms l F(5) by (intro swap_up_lg) simp_all
  then obtain r2 where r2: "swap_up (nat at) r1 (head r1) = (Inr (), r2)"
    "head r2 = head r1" "tail r2 = tail r1" "count r2 = count r1" "buf_len r2 = buf_len r1"
    "\<And>i. 0 \<le> i \<Longrightarrow> i < buf_len r \<Longrightarrow>
        lg r2 i = (if i < at then lg r1 (i + 1) else if i = at then lg r1 0 else lg r1 i)"
    using h1 F(5) assms(3) by auto
  have ins: "Insert r at v = (Inr (), r2)"
    using assms(2-5) f F(1) r2(1) by (simp add: Insert_def Full_def)
  then have e: "res = Inr ()" "r' = r2" using assms(6) by simp_all
  show "res = Inr ()" by fact
  show "head r' = (head r - 1) mod buf_len r" "tail r' = tail r"
    "count r' = count r + 1" "buf_len r' = buf_len r"
    using e r2(2-5) F(2-5) assms(2) by simp_all
  fix i assume i: "0 \<le> i" "i < buf_len r"
  consider "i < at" | "i = at" | "at < i" by linarith
  then show "lg r' i = (if i < at then lg r i else if i = at then v else lg r (i - 1))"
  proof cases
    case 1 then show ?thesis using r2(6)[OF i] F(6)[of "i + 1"] i assms e by simp
  next
    case 2 then show ?thesis using r2(6)[OF i] F(6)[of 0] l e by simp
  next
    case 3 then show ?thesis using r2(6)[OF i] F(6)[OF i] assms(3) e by simp
  qed
qed

lemma Insert_back_lg:
  assumes "reach_inv r" "count r < buf_len r" "0 \<le> at" "at \<le> count r" "\<not> at * 2 < count r"
    "tail r < buf_len r" "Insert r at v = (res, r')"
  shows "res = Inr ()" "head r' = head r" "tail r' = (tail r + 1) mod buf_len r"
    "count r' = count r + 1" "buf_len r' = buf_len r"
    "\<And>i. 0 \<le> i \<Longrightarrow> i < buf_len r \<Longrightarrow>
       lg r' i = (if i < at then lg r i else if i = at then v
                  else if i \<le> count r then lg r (i - 1) else lg r i)"
proof -
  have l: "0 < buf_len r" using assms by (auto simp: reach_inv_def split: if_splits)
  note p = reach_inv_pos[OF assms(1) l]
  obtain res1 r1 where f: "PushBack r v = (res1, r1)" by (cases "PushBack r v")
  note B = PushBack_nonfull_lg[OF assms(1,6,2) f]
  have t1: "0 \<le> tail r1" using B(3) l by simp
  have "(tail r1 - 1) mod buf_len r = tail r mod buf_len r"
    using B(3) by (simp add: mod_simps)
  then have pv: "ring_prev r1 (tail r1) = Inr ((head r1 + count r) mod buf_len r1)"
    using ring_prev_eq[of r1 "tail r1"] t1 l B(2,5) p(5) by simp
  have "\<exists>r'. swap_down (nat (count r - at)) r1 ((head r1 + count r) mod buf_len r1) = (Inr (), r') \<and>
     head r' = head r1 \<and> tail r' = tail r1 \<and> count r' = count r1 \<and> buf_len r' = buf_len r1 \<and>
     (\<forall>i. 0 \<le> i \<and> i < buf_len r1 \<longrightarrow>
        lg r' i = (if count r - int (nat (count r - at)) < i \<and> i \<le> count r then lg r1 (i - 1)
                   else if i = count r - int (nat (count r - at)) then lg r1 (count r) else lg r1 i))"
    using assms l B(5) by (intro swap_down_lg) simp_all
  then obtain r2 where r2:
    "swap_down (nat (count r - at)) r1 ((head r1 + count r) mod buf_len r1) = (Inr (), r2)"
    "head r2 = head r1" "tail r2 = tail r1" "count r2 = count r1" "buf_len r2 = buf_len r1"
    "\<And>i. 0 \<le> i \<Longrightarrow> i < buf_len r \<Longrightarrow>
        lg r2 i = (if at < i \<and> i \<le> count r then lg r1 (i - 1)
                   else if i = at then lg r1 (count r) else lg r1 i)"
    using B(5) assms(4) by auto
  have ins: "Insert r at v = (Inr (), r2)"
    using assms(2-5) f B(1) r2(1) pv by (simp add: Insert_def Full_def)
  then have e: "res = Inr ()" "r' = r2" using assms(7) by simp_all
  show "res = Inr ()" by fact
  show "head r' = head r" "tail r' = (tail r + 1) mod buf_len r"
    "count r' = count r + 1" "buf_len r' = buf_len r"
    using e r2(2-5) B(2-5) by simp_all
  fix i assume i: "0 \<le> i" "i < buf_len r"
  consider "i < at" | "i = at" | "at < i" "i \<le> count r" | "count r < i" by linarith
  then show "lg r' i = (if i < at then lg r i else if i = at then v
                  else if i \<le> count r then lg r (i - 1) else lg r i)"
  proof cases
    case 1 then show ?thesis using r2(6)[OF i] B(6)[OF i] assms e by simp
  next
    case 2 then show ?thesis using r2(6)[OF i] B(6)[of "count r"] assms p e by simp
  next
    case 3 then show ?thesis using r2(6)[OF i] B(6)[of "i - 1"] i assms e by simp
  next
    case 4 then show ?thesis using r2(6)[OF i] B(6)[OF i] assms e by simp
  qed
qed

lemma Remove_fail:
  "at < 0 \<or> at \<ge> count r \<Longrightarrow> Remove z r at = (Inl (OutOfRangeText at (count r)), r)"
  by (auto simp: Remove_def Len_def)

lemma Remove_front_lg:
  assumes "reach_inv r" "0 \<le> at" "at < count r" "at * 2 < count r" "Remove z r at = (res, r')"
  shows "res = Inr (lg r at)" "head r' = (head r + 1) mod buf_len r" "tail r' = tail r"
    "count r' = count r - 1" "buf_len r' = buf_len r"
    "\<And>i. 0 \<le> i \<Longrightarrow> i < buf_len r \<Longrightarrow>
       lg r' i = (if i = buf_len r - 1 then z else if i < at then lg r i else lg r (i + 1))"
proof -
  have l: "0 < buf_len r" using assms by (auto simp: reach_inv_def split: if_splits)
  note p = reach_inv_pos[OF assms(1) l]
  have g: "go_rem (head r + at) (buf_len r) = (head r + at) mod buf_len r"
    using p assms(2) l by (simp add: go_rem_nonneg)
  have "\<exists>r'. swap_down (nat at) r ((head r + at) mod buf_len r) = (Inr (), r') \<and>
     head r' = head r \<and> tail r' = tail r \<and> count r' = count r \<and> buf_len r' = buf_len r \<and>
     (\<forall>i. 0 \<le> i \<and> i < buf_len r \<longrightarrow>
        lg r' i = (if at - int (nat at) < i \<and> i \<le> at then lg r (i - 1)
                   else if i = at - int (nat at) then lg r at else lg r i))"
    using assms l p by (intro swap_down_lg) simp_all
  then obtain r1 where r1:
    "swap_down (nat at) r ((head r + at) mod buf_len r) = (Inr (), r1)"
    "head r1 = head r" "tail r1 = tail r" "count r1 = count r" "buf_len r1 = buf_len r"
    "\<And>i. 0 \<le> i \<Longrightarrow> i < buf_len r \<Longrightarrow>
        lg r1 i = (if 0 < i \<and> i \<le> at then lg r (i - 1)
                   else if i = 0 then lg r at else lg r i)"
    using assms(2) by auto
  have inv1: "reach_inv r1" using reach_inv_cong[OF assms(1) r1(2-5)] .
  obtain res2 r2 where f: "PopFront z r1 = (res2, r2)" by (cases "PopFront z r1")
  have c1: "0 < count r1" using r1(4) assms by simp
  note P = PopFront_lg[OF inv1 c1 f]
  have rm: "Remove z r at = (res2, r2)"
    using assms(2-4) l g r1(1) f by (simp add: Remove_def Len_def Let_def)
  then have e: "res = res2" "r' = r2" using assms(5) by simp_all
  show "res = Inr (lg r at)" using e P(1) r1(6)[of 0] l by simp
  show "head r' = (head r + 1) mod buf_len r" "tail r' = tail r"
    "count r' = count r - 1" "buf_len r' = buf_len r"
    using e P(2-5) r1(2-5) by simp_all
  fix i assume i: "0 \<le> i" "i < buf_len r"
  show "lg r' i = (if i = buf_len r - 1 then z else if i < at then lg r i else lg r (i + 1))"
  proof (cases "i = buf_len r - 1")
    case True then show ?thesis using P(6)[of i] i e r1(5) by simp
  next
    case False
    then show ?thesis using P(6)[of i] r1(6)[of "i + 1"] i e r1(5) assms(2) by simp
  qed
qed

lemma Remove_back_lg:
  assumes "reach_inv r" "0 \<le> at" "at < count r" "\<not> at * 2 < count r" "Remove z r at = (res, r')"
  shows "res = Inr (lg r at)" "head r' = head r" "tail r' = (tail r - 1) mod buf_len r"
    "count r' = count r - 1" "buf_len r' = buf_len r"
    "\<And>i. 0 \<le> i \<Longrightarrow> i < buf_len r \<Longrightarrow>
       lg r' i = (if i = count r - 1 then z else if i < at then lg r i
                  else if i < count r then lg r (i + 1) else lg r i)"
proof -
  have l: "0 < buf_len r" using assms by (auto simp: reach_inv_def split: if_splits)
  note p = reach_inv_pos[OF assms(1) l]
  have g: "go_rem (head r + at) (buf_len r) = (head r + at) mod buf_len r"
    using p assms(2) l by (simp add: go_rem_nonneg)
  have "\<exists>r'. swap_up (nat (count r - at - 1)) r ((head r + at) mod buf_len r) = (Inr (), r') \<and>
     head r' = head r \<and> tail r' = tail r \<and> count r' = count r \<and> buf_len r' = buf_len r \<and>
     (\<forall>i. 0 \<le> i \<and> i < buf_len r \<longrightarrow>
        lg r' i = (if at \<le> i \<and> i < at + int (nat (count r - at - 1)) then lg r (i + 1)
                   else if i = at + int (nat (count r - at - 1)) then lg r at else lg r i))"
    using assms l p by (intro swap_up_lg) simp_all
  then obtain r1 where r1:
    "swap_up (nat (count r - at - 1)) r ((head r + at) mod buf_len r) = (Inr (), r1)"
    "head r1 = head r" "tail r1 = tail r" "count r1 = count r" "buf_len r1 = buf_len r"
    "\<And>i. 0 \<le> i \<Longrightarrow> i < buf_len r \<Longrightarrow>
        lg r1 i = (if at \<le> i \<and> i < count r - 1 then lg r (i + 1)
                   else if i = count r - 1 then lg r at else lg r i)"
    using assms(3) by auto
  have inv1: "reach_inv r1" using reach_inv_cong[OF assms(1) r1(2-5)] .
  obtain res2 r2 where f: "PopBack z r1 = (res2, r2)" by (cases "PopBack z r1")
  have c1: "0 < count r1" using r1(4) assms by simp
  note P = PopBack_lg[OF inv1 c1 f]
  have rm: "Remove z r at = (res2, r2)"
    using assms(2-4) l g r1(1) f by (simp add: Remove_def Len_def Let_def)
  then have e: "res = res2" "r' = r2" using assms(5) by simp_all
  show "res = Inr (lg r at)" using e P(1) r1(6)[of "count r - 1"] r1(4) assms p by simp
  show "head r' = head r" "tail r' = (tail r - 1) mod buf_len r"
    "count r' = count r - 1" "buf_len r' = buf_len r"
    using e P(2-5) r1(2-5) by simp_all
  fix i assume i: "0 \<le> i" "i < buf_len r"
  show "lg r' i = (if i = count r - 1 then z else if i < at then lg r i
                  else if i < count r then lg r (i + 1) else lg r i)"
    using P(6)[of i] r1(6)[OF i] i e r1(4,5) assms(2,3) by simp
qed

lemma mod_pred_cong:
  fixes a b l :: int
  assumes "a mod l = b mod l"
  shows "(a - 1) mod l = (b - 1) mod l"
  by (rule mod_diff_cong[OF assms refl])

lemma nth_insert_lt:
  assumes "n \<le> length xs" "i < n"
  shows "(take n xs @ v # drop n xs) ! i = xs ! i"
  using assms by (simp add: nth_append)

lemma nth_insert_eq:
  assumes "n \<le> length xs"
  shows "(take n xs @ v # drop n xs) ! n = v"
  using assms by (simp add: nth_append)

lemma nth_insert_gt:
  assumes "n \<le> length xs" "n < i" "i \<le> length xs"
  shows "(take n xs @ v # drop n xs) ! i = xs ! (i - 1)"
proof -
  obtain d where d: "i = n + Suc d" using assms(2) by (auto dest: less_imp_Suc_add)
  have "(take n xs @ v # drop n xs) ! (n + Suc d) = xs ! (n + d)"
    using assms(1,3) unfolding d by (simp add: nth_append)
  then show ?thesis unfolding d by simp
qed

lemma Insert_ok:
  assumes "ring_inv r" "count r < buf_len r" "0 \<le> at" "at \<le> count r"
  shows "\<exists>r'. Insert r at v = (Inr (), r') \<and> ring_inv r' \<and> count r' = count r + 1 \<and>
     buf_len r' = buf_len r \<and>
     (\<forall>i. 0 \<le> i \<and> i \<le> count r \<longrightarrow>
        lg r' i = (if i < at then lg r i else if i = at then v else lg r (i - 1)))"
proof -
  have l: "0 < buf_len r" using assms by (auto simp: ring_inv_def split: if_splits)
  note p = ring_inv_pos[OF assms(1) l]
  have ri: "reach_inv r" using assms(1) by (rule ring_inv_reach)
  obtain res r' where ins: "Insert r at v = (res, r')" by (cases "Insert r at v")
  show ?thesis
  proof (cases "at * 2 < count r")
    case True
    note I = Insert_front_lg[OF ri assms(2-4) True ins]
    have "ring_inv r'"
      using I(2-5) p l assms(2) by (intro ring_invI) (simp_all add: mod_simps)
    then show ?thesis using ins I assms(2) by auto
  next
    case False
    note I = Insert_back_lg[OF ri assms(2-4) False p(4) ins]
    have "ring_inv r'"
      using I(2-5) p l assms(2) by (intro ring_invI) (simp_all add: mod_simps add.assoc)
    then show ?thesis using ins I assms(2) by auto
  qed
qed

lemma Remove_ok:
  assumes "reach_inv r" "0 \<le> at" "at < count r"
  shows "\<exists>r'. Remove z r at = (Inr (lg r at), r') \<and> reach_inv r' \<and>
     (tail r < buf_len r \<longrightarrow> tail r' < buf_len r') \<and> count r' = count r - 1 \<and>
     buf_len r' = buf_len r \<and>
     (\<forall>i. 0 \<le> i \<and> i < count r - 1 \<longrightarrow> lg r' i = (if i < at then lg r i else lg r (i + 1)))"
proof -
  have l: "0 < buf_len r" using assms by (auto simp: reach_inv_def split: if_splits)
  note p = reach_inv_pos[OF assms(1) l]
  obtain res r' where rm: "Remove z r at = (res, r')" by (cases "Remove z r at")
  show ?thesis
  proof (cases "at * 2 < count r")
    case True
    note R = Remove_front_lg[OF assms True rm]
    have "reach_inv r'"
      using R(2-5) p l assms by (intro reach_invI) (simp_all add: mod_simps)
    then show ?thesis using rm R p assms by auto
  next
    case False
    note R = Remove_back_lg[OF assms False rm]
    have "(tail r - 1) mod buf_len r = (head r + count r - 1) mod buf_len r"
      using p(5) by (rule mod_pred_cong)
    then have "tail r' mod buf_len r' = (head r' + count r') mod buf_len r'"
      using R(2-5) by (simp add: add_diff_eq)
    then have "reach_inv r'"
      using R(2-5) p l assms by (intro reach_invI) (simp_all add: less_imp_le)
    moreover have "tail r' < buf_len r'" using R(3,5) l by simp
    ultimately show ?thesis using rm R p assms by auto
  qed
qed

lemma At_fail: "i < 0 \<or> count r \<le> i \<Longrightarrow> At (Some r) i = Inl (OutOfRangeText i (count r))"
  by (auto simp: At_def Len_def)

lemma Set_fail:
  "i < 0 \<or> count r \<le> i \<Longrightarrow> Set (Some r) i v = (Inl (OutOfRangeText i (count r)), Some r)"
  by (auto simp: Set_def Len_def)

lemma Front_ok:
  assumes "reach_inv r" "0 < count r"
  shows "Front r = Inr (lg r 0)"
proof -
  have l: "0 < buf_len r" using assms by (auto simp: reach_inv_def split: if_splits)
  note p = reach_inv_pos[OF assms(1) l]
  show ?thesis using p assms(2) by (simp add: Front_def in_buf_def lg_def)
qed

lemma Back_ok:
  assumes "reach_inv r" "0 < count r"
  shows "Back r = Inr (lg r (count r - 1))"
proof -
  have l: "0 < buf_len r" using assms by (auto simp: reach_inv_def split: if_splits)
  note p = reach_inv_pos[OF assms(1) l]
  show ?thesis using p assms(2) l PopBack_ok(2)[OF assms]
    by (simp add: Back_def in_buf_def lg_def ring_prev_eq)
qed

lemma go_rem_cases:
  assumes "0 < c"
  obtains "n < 0" "go_rem n c = - ((- n) mod c)" | "0 \<le> n" "go_rem n c = n mod c"
proof (cases "n < 0")
  case True
  then have "go_rem n c = - ((- n) mod c)" using assms by (simp add: go_rem_def)
  then show ?thesis using True that by blast
next
  case False
  then have "go_rem n c = n mod c" using assms by (simp add: go_rem_nonneg)
  then show ?thesis using False that by simp
qed

lemma go_rem_cong: "0 < c \<Longrightarrow> go_rem n c mod c = n mod c"
  by (erule go_rem_cases[of c n]) (simp_all add: mod_minus_eq)

lemma go_rem_bounds:
  assumes "0 < c"
  shows "- c < go_rem n c" "go_rem n c < c"
proof -
  have a: "0 \<le> (- n) mod c" "(- n) mod c < c" "0 \<le> n mod c" "n mod c < c"
    using assms by simp_all
  show "- c < go_rem n c" by (rule go_rem_cases[OF assms, of n]) (use a in linarith)+
  show "go_rem n c < c" by (rule go_rem_cases[OF assms, of n]) (use a in linarith)+
qed

lemma go_rem_idem:
  assumes "0 < c"
  shows "go_rem (go_rem n c) c = go_rem n c"
proof (rule go_rem_cases[OF assms, of n])
  assume n: "n < 0" "go_rem n c = - ((- n) mod c)"
  have a: "0 \<le> (- n) mod c" "(- n) mod c < c" using assms by simp_all
  show ?thesis
  proof (cases "(- n) mod c = 0")
    case True
    then show ?thesis using n by (simp add: go_rem_def)
  next
    case False
    then have "- ((- n) mod c) < 0" using a by linarith
    then have "go_rem (- ((- n) mod c)) c = - ((- (- ((- n) mod c))) mod c)"
      using assms by (simp add: go_rem_def)
    then show ?thesis using n a by simp
  qed
next
  assume n: "0 \<le> n" "go_rem n c = n mod c"
  then show ?thesis using assms by (simp add: go_rem_nonneg)
qed

lemma lg_mod: "lg r (i mod buf_len r) = lg r i"
  by (simp add: lg_def mod_simps)

lemma full_iff_head_tail:
  assumes "ring_inv r" "0 < count r"
  shows "(head r = tail r) = (count r = buf_len r)"
proof -
  have l: "0 < buf_len r" using assms by (auto simp: ring_inv_def split: if_splits)
  note p = ring_inv_pos[OF assms(1) l]
  have "(head r = tail r) = ((head r + 0) mod buf_len r = (head r + count r) mod buf_len r)"
    using p by simp
  also have "\<dots> = ((0 - count r) mod buf_len r = 0)" by (rule slot_eq_iff)
  also have "\<dots> = (count r = buf_len r)"
  proof (cases "count r = buf_len r")
    case True then show ?thesis by simp
  next
    case False
    then have "((0 - count r) mod buf_len r = 0) = (0 - count r = 0)"
      using p by (intro mod_zero_window2) linarith+
    then show ?thesis using assms(2) False by simp
  qed
  finally show ?thesis .
qed

lemma rotate_back_step:
  assumes "reach_inv r" "0 < buf_len r"
  shows "\<exists>r'. rotate_back z (buf_len r) (Suc k) r = rotate_back z (buf_len r) k r' \<and>
     head r' = (head r - 1) mod buf_len r \<and> tail r' = (tail r - 1) mod buf_len r \<and>
     count r' = count r \<and> buf_len r' = buf_len r \<and>
     (\<forall>i. lg r' i = (if (i - count r) mod buf_len r = 0 then z
                      else if i mod buf_len r = 0 then lg r (count r - 1) else lg r (i - 1)))"
proof -
  note l = assms(2)
  note p = reach_inv_pos[OF assms(1) l]
  let ?l = "buf_len r"
  let ?h = "(head r - 1) mod ?l" and ?t = "(tail r - 1) mod ?l"
  define ra where "ra = r\<lparr>head := ?h\<rparr>"
  define rb where "rb = r\<lparr>head := ?h, tail := ?t\<rparr>"
  define rc where "rc = rb\<lparr>buf := (buf rb)[nat (head rb) := buf rb ! nat (tail rb)]\<rparr>"
  define rd where "rd = rc\<lparr>buf := (buf rc)[nat (tail rc) := z]\<rparr>"
  have gh: "go_rem (head r - 1 + ?l) ?l = ?h" using p l by (simp add: go_rem_nonneg)
  have gt: "go_rem (tail r - 1 + ?l) ?l = ?t" using p l by (simp add: go_rem_nonneg)
  have t: "?t = (head r + (count r - 1)) mod ?l"
    using mod_pred_cong[OF p(5)] by (simp add: add_diff_eq)
  have ts: "?t = (?h + count r) mod ?l" using t by (simp add: mod_simps algebra_simps)
  have la: "lg ra i = lg r (i + (- 1))" for i
    by (rule lg_shift) (simp_all add: ra_def)
  have rb: "buf rb = buf r" "head rb = ?h" "tail rb = ?t" "buf_len rb = ?l" "count rb = count r"
    by (simp_all add: rb_def buf_len_def)
  have lb: "lg rb i = lg r (i - 1)" for i
    using la[of i] by (simp add: lg_def rb ra_def buf_len_def)
  have tv: "buf rb ! nat (tail rb) = lg r (count r - 1)"
    by (simp add: rb t lg_def)
  have rc0: "buf rc = (buf rb)[nat (head rb) := lg r (count r - 1)]"
    unfolding rc_def using tv by simp
  have hb: "(head rb + 0) mod buf_len rb = head rb" by (simp add: rb)
  have rc: "buf rc = (buf rb)[nat ((head rb + 0) mod buf_len rb) := lg r (count r - 1)]"
    "head rc = head rb" "tail rc = ?t" "buf_len rc = ?l" "count rc = count r"
    using rc0 hb rb by (simp_all add: rc_def buf_len_def)
  have lc: "lg rc i = (if (i - 0) mod buf_len rb = 0 then lg r (count r - 1) else lg rb i)" for i
    by (rule lg_upd_slot[OF _ rc(1,2)]) (simp add: rb l)
  have rd0: "buf rd = (buf rc)[nat ?t := z]" by (simp add: rd_def rc(3))
  have tc: "?t = (head rc + count r) mod buf_len rc" using ts by (simp add: rc rb)
  have rd: "buf rd = (buf rc)[nat ((head rc + count r) mod buf_len rc) := z]"
    "head rd = head rc" "tail rd = ?t" "buf_len rd = ?l" "count rd = count r"
    using rd0 tc rc by (simp_all add: rd_def buf_len_def)
  have ld: "lg rd i = (if (i - count r) mod buf_len rc = 0 then z else lg rc i)" for i
    by (rule lg_upd_slot[OF _ rd(1,2)]) (simp add: rc l)
  have step: "rotate_back z ?l (Suc k) r = rotate_back z ?l k rd"
    using l gh gt by (simp add: Let_def in_buf_def rd_def rc_def rb_def buf_len_def)
  have "lg rd i = (if (i - count r) mod ?l = 0 then z
                      else if i mod ?l = 0 then lg r (count r - 1) else lg r (i - 1))" for i
    using ld[of i] lc[of i] lb[of i] rb rc by simp
  then show ?thesis using step rd rc rb by auto
qed

lemma rotate_fwd_step:
  assumes "ring_inv r" "0 < buf_len r"
  shows "\<exists>r'. rotate_fwd z (buf_len r) (Suc k) r = rotate_fwd z (buf_len r) k r' \<and>
     head r' = (head r + 1) mod buf_len r \<and> tail r' = (tail r + 1) mod buf_len r \<and>
     count r' = count r \<and> buf_len r' = buf_len r \<and>
     (\<forall>i. lg r' i = (if (i + 1) mod buf_len r = 0 then z
                      else if (i + 1 - count r) mod buf_len r = 0 then lg r 0 else lg r (i + 1)))"
proof -
  note l = assms(2)
  note p = ring_inv_pos[OF assms(1) l]
  let ?l = "buf_len r"
  define ra where "ra = r\<lparr>buf := (buf r)[nat (tail r) := buf r ! nat (head r)]\<rparr>"
  define rb where "rb = ra\<lparr>buf := (buf ra)[nat (head ra) := z]\<rparr>"
  define rd where "rd = rb\<lparr>head := (head r + 1) mod ?l, tail := (tail r + 1) mod ?l\<rparr>"
  have hv: "buf r ! nat (head r) = lg r 0" using p by (simp add: lg_def)
  have ra: "buf ra = (buf r)[nat ((head r + count r) mod ?l) := lg r 0]" "head ra = head r"
    "buf_len ra = ?l" "tail ra = tail r" "count ra = count r"
    using p(5) by (simp_all add: ra_def hv buf_len_def)
  have la: "lg ra i = (if (i - count r) mod ?l = 0 then lg r 0 else lg r i)" for i
    by (rule lg_upd_slot[OF l ra(1,2)])
  have rb: "buf rb = (buf ra)[nat ((head ra + 0) mod buf_len ra) := z]" "head rb = head ra"
    "buf_len rb = ?l" "tail rb = tail r" "count rb = count r"
    using p by (simp_all add: rb_def ra buf_len_def)
  have lb: "lg rb i = (if (i - 0) mod buf_len ra = 0 then z else lg ra i)" for i
    by (rule lg_upd_slot[OF _ rb(1,2)]) (simp add: ra l)
  have rd: "buf rd = buf rb" "head rd = (head rb + 1) mod buf_len rb"
    "tail rd = (tail r + 1) mod ?l" "buf_len rd = ?l" "count rd = count r"
    by (simp_all add: rd_def rb ra buf_len_def)
  have ld: "lg rd i = lg rb (i + 1)" for i
    by (rule lg_shift[OF rd(1,2)])
  have g: "go_rem (head r + 1) ?l = (head r + 1) mod ?l" "go_rem (tail r + 1) ?l = (tail r + 1) mod ?l"
    using p l by (simp_all add: go_rem_nonneg)
  have step: "rotate_fwd z ?l (Suc k) r = rotate_fwd z ?l k rd"
    using l p(1-4) g by (simp add: Let_def in_buf_def rd_def rb_def ra_def buf_len_def)
  have "lg rd i = (if (i + 1) mod ?l = 0 then z
                      else if (i + 1 - count r) mod ?l = 0 then lg r 0 else lg r (i + 1))" for i
    using ld[of i] lb[of "i + 1"] la[of "i + 1"] ra by simp
  then show ?thesis using step rd rb ra by auto
qed

lemma rotate_fwd_lg:
  assumes "ring_inv r" "0 < count r" "count r < buf_len r"
  shows "\<exists>r'. rotate_fwd z (buf_len r) k r = (Inr (), r') \<and> ring_inv r' \<and>
     count r' = count r \<and> buf_len r' = buf_len r \<and>
     (\<forall>i. 0 \<le> i \<and> i < count r \<longrightarrow> lg r' i = lg r ((i + int k) mod count r)) \<and>
     ((\<forall>i. count r \<le> i \<and> i < buf_len r \<longrightarrow> lg r i = z) \<longrightarrow>
      (\<forall>i. count r \<le> i \<and> i < buf_len r \<longrightarrow> lg r' i = z))"
  using assms
proof (induction k arbitrary: r)
  case 0
  then show ?case by simp
next
  case (Suc k)
  have l: "0 < buf_len r" using Suc.prems by simp
  note p = ring_inv_pos[OF Suc.prems(1) l]
  let ?l = "buf_len r" and ?c = "count r"
  from rotate_fwd_step[OF Suc.prems(1) l, of z k] obtain r1 where r1:
    "rotate_fwd z ?l (Suc k) r = rotate_fwd z ?l k r1"
    "head r1 = (head r + 1) mod ?l" "tail r1 = (tail r + 1) mod ?l"
    "count r1 = ?c" "buf_len r1 = ?l"
    "\<And>i. lg r1 i = (if (i + 1) mod ?l = 0 then z
                      else if (i + 1 - ?c) mod ?l = 0 then lg r 0 else lg r (i + 1))"
    by blast
  have w: "lg r1 i = (if i = ?l - 1 then z else if i + 1 = ?c then lg r 0 else lg r (i + 1))"
    if "0 \<le> i" "i < ?l" for i
  proof -
    have "((i + 1 - ?l) mod ?l = 0) = (i + 1 - ?l = 0)"
      using that by (intro mod_zero_window2) linarith+
    moreover have "(i + 1 - ?l) mod ?l = (i + 1) mod ?l" by simp
    moreover have "((i + 1 - ?c) mod ?l = 0) = (i + 1 - ?c = 0)" if "i \<noteq> ?l - 1"
      using that \<open>0 \<le> i\<close> \<open>i < ?l\<close> Suc.prems by (intro mod_zero_window2) linarith+
    ultimately show ?thesis using r1(6)[of i] by auto
  qed
  have "(head r + ?c + 1) mod ?l = (head r + 1 + ?c) mod ?l" by (simp add: algebra_simps)
  then have inv1: "ring_inv r1"
    using r1(2-5) p l by (intro ring_invI) (simp_all add: mod_simps)
  have "\<exists>r'. rotate_fwd z (buf_len r1) k r1 = (Inr (), r') \<and> ring_inv r' \<and>
     count r' = count r1 \<and> buf_len r' = buf_len r1 \<and>
     (\<forall>i. 0 \<le> i \<and> i < count r1 \<longrightarrow> lg r' i = lg r1 ((i + int k) mod count r1)) \<and>
     ((\<forall>i. count r1 \<le> i \<and> i < buf_len r1 \<longrightarrow> lg r1 i = z) \<longrightarrow>
      (\<forall>i. count r1 \<le> i \<and> i < buf_len r1 \<longrightarrow> lg r' i = z))"
    using Suc.prems(2,3) r1(4,5) by (intro Suc.IH[OF inv1]) simp_all
  then obtain r' where r': "rotate_fwd z ?l k r1 = (Inr (), r')" "ring_inv r'"
    "count r' = ?c" "buf_len r' = ?l"
    "\<And>i. 0 \<le> i \<Longrightarrow> i < ?c \<Longrightarrow> lg r' i = lg r1 ((i + int k) mod ?c)"
    "(\<forall>i. ?c \<le> i \<and> i < ?l \<longrightarrow> lg r1 i = z) \<Longrightarrow> (\<forall>i. ?c \<le> i \<and> i < ?l \<longrightarrow> lg r' i = z)"
    by (auto simp: r1(4,5))
  have a: "lg r' i = lg r ((i + int (Suc k)) mod ?c)" if i: "0 \<le> i" "i < ?c" for i
  proof -
    define j where "j = (i + int k) mod ?c"
    have j: "0 \<le> j" "j < ?c" using Suc.prems(2) by (simp_all add: j_def)
    have "i + int (Suc k) = (i + int k) + 1" by simp
    then have "(i + int (Suc k)) mod ?c = ((i + int k) + 1) mod ?c" by (rule arg_cong)
    also have "\<dots> = ((i + int k) mod ?c + 1) mod ?c" by (rule mod_add_left_eq[symmetric])
    finally have s: "(i + int (Suc k)) mod ?c = (j + 1) mod ?c" unfolding j_def .
    have "lg r' i = lg r1 j" using r'(5)[OF i] by (simp add: j_def)
    also have "\<dots> = (if j + 1 = ?c then lg r 0 else lg r (j + 1))"
      using w[of j] j Suc.prems(3) by simp
    also have "\<dots> = lg r ((j + 1) mod ?c)" using j by (cases "j + 1 = ?c") simp_all
    finally show ?thesis using s by simp
  qed
  have g: "\<forall>i. ?c \<le> i \<and> i < ?l \<longrightarrow> lg r' i = z"
    if gz: "\<forall>i. ?c \<le> i \<and> i < ?l \<longrightarrow> lg r i = z"
  proof -
    have "\<forall>i. ?c \<le> i \<and> i < ?l \<longrightarrow> lg r1 i = z"
      using w gz Suc.prems(2) by auto
    then show ?thesis by (rule r'(6))
  qed
  show ?case using r1(1) r'(1-4) a g by auto
qed

lemma rotate_back_lg:
  assumes "ring_inv r" "0 < count r" "count r < buf_len r"
  shows "\<exists>r'. rotate_back z (buf_len r) k r = (Inr (), r') \<and> ring_inv r' \<and>
     count r' = count r \<and> buf_len r' = buf_len r \<and>
     (\<forall>i. 0 \<le> i \<and> i < count r \<longrightarrow> lg r' i = lg r ((i - int k) mod count r)) \<and>
     ((\<forall>i. count r \<le> i \<and> i < buf_len r \<longrightarrow> lg r i = z) \<longrightarrow>
      (\<forall>i. count r \<le> i \<and> i < buf_len r \<longrightarrow> lg r' i = z))"
  using assms
proof (induction k arbitrary: r)
  case 0
  then show ?case by simp
next
  case (Suc k)
  have l: "0 < buf_len r" using Suc.prems by simp
  note p = ring_inv_pos[OF Suc.prems(1) l]
  let ?l = "buf_len r" and ?c = "count r"
  from rotate_back_step[OF ring_inv_reach[OF Suc.prems(1)] l, of z k] obtain r1 where r1:
    "rotate_back z ?l (Suc k) r = rotate_back z ?l k r1"
    "head r1 = (head r - 1) mod ?l" "tail r1 = (tail r - 1) mod ?l"
    "count r1 = ?c" "buf_len r1 = ?l"
    "\<And>i. lg r1 i = (if (i - ?c) mod ?l = 0 then z
                      else if i mod ?l = 0 then lg r (?c - 1) else lg r (i - 1))"
    by blast
  have w: "lg r1 i = (if i = ?c then z else if i = 0 then lg r (?c - 1) else lg r (i - 1))"
    if "0 \<le> i" "i < ?l" for i
  proof -
    have "((i - ?c) mod ?l = 0) = (i - ?c = 0)"
      using that Suc.prems by (intro mod_zero_window2) linarith+
    then show ?thesis using r1(6)[of i] that by auto
  qed
  have "(head r + ?c - 1) mod ?l = (head r - 1 + ?c) mod ?l" by (simp add: algebra_simps)
  then have inv1: "ring_inv r1"
    using r1(2-5) p l by (intro ring_invI) (simp_all add: mod_simps)
  have "\<exists>r'. rotate_back z (buf_len r1) k r1 = (Inr (), r') \<and> ring_inv r' \<and>
     count r' = count r1 \<and> buf_len r' = buf_len r1 \<and>
     (\<forall>i. 0 \<le> i \<and> i < count r1 \<longrightarrow> lg r' i = lg r1 ((i - int k) mod count r1)) \<and>
     ((\<forall>i. count r1 \<le> i \<and> i < buf_len r1 \<longrightarrow> lg r1 i = z) \<longrightarrow>
      (\<forall>i. count r1 \<le> i \<and> i < buf_len r1 \<longrightarrow> lg r' i = z))"
    using Suc.prems(2,3) r1(4,5) by (intro Suc.IH[OF inv1]) simp_all
  then obtain r' where r': "rotate_back z ?l k r1 = (Inr (), r')" "ring_inv r'"
    "count r' = ?c" "buf_len r' = ?l"
    "\<And>i. 0 \<le> i \<Longrightarrow> i < ?c \<Longrightarrow> lg r' i = lg r1 ((i - int k) mod ?c)"
    "(\<forall>i. ?c \<le> i \<and> i < ?l \<longrightarrow> lg r1 i = z) \<Longrightarrow> (\<forall>i. ?c \<le> i \<and> i < ?l \<longrightarrow> lg r' i = z)"
    by (auto simp: r1(4,5))
  have a: "lg r' i = lg r ((i - int (Suc k)) mod ?c)" if i: "0 \<le> i" "i < ?c" for i
  proof -
    define j where "j = (i - int k) mod ?c"
    have j: "0 \<le> j" "j < ?c" using Suc.prems(2) by (simp_all add: j_def)
    have "i - int (Suc k) = (i - int k) - 1" by simp
    then have "(i - int (Suc k)) mod ?c = ((i - int k) - 1) mod ?c" by (rule arg_cong)
    also have "\<dots> = ((i - int k) mod ?c - 1) mod ?c" by (rule mod_diff_left_eq[symmetric])
    finally have s: "(i - int (Suc k)) mod ?c = (j - 1) mod ?c" unfolding j_def .
    have "lg r' i = lg r1 j" using r'(5)[OF i] by (simp add: j_def)
    also have "\<dots> = (if j = 0 then lg r (?c - 1) else lg r (j - 1))"
      using w[of j] j Suc.prems(3) by simp
    also have "\<dots> = lg r ((j - 1) mod ?c)"
    proof (cases "j = 0")
      case True
      have "(- 1) mod ?c = ?c - 1" using Suc.prems(2) by (simp add: zmod_minus1)
      then show ?thesis using True by simp
    next
      case False
      then show ?thesis using j by simp
    qed
    finally show ?thesis using s by simp
  qed
  have g: "\<forall>i. ?c \<le> i \<and> i < ?l \<longrightarrow> lg r' i = z"
    if gz: "\<forall>i. ?c \<le> i \<and> i < ?l \<longrightarrow> lg r i = z"
  proof -
    have "\<forall>i. ?c \<le> i \<and> i < ?l \<longrightarrow> lg r1 i = z"
      using w gz Suc.prems(2) by auto
    then show ?thesis by (rule r'(6))
  qed
  show ?case using r1(1) r'(1-4) a g by auto
qed

lemma go_rem_zero_iff:
  assumes "0 < c"
  shows "(go_rem n c = 0) = (c dvd n)"
proof -
  have "(go_rem n c = 0) = (go_rem n c mod c = 0)"
    using go_rem_bounds[OF assms, of n] by (intro mod_zero_window2[symmetric]) simp_all
  also have "\<dots> = (n mod c = 0)" by (simp add: go_rem_cong[OF assms])
  also have "\<dots> = (c dvd n)" by (simp add: mod_eq_0_iff_dvd)
  finally show ?thesis .
qed

lemma shift_mod_cong:
  fixes a b c i :: int
  assumes "a mod c = b mod c"
  shows "(i + a) mod c = (i + b) mod c"
  by (rule mod_add_cong[OF refl assms])

lemma Rotate_small: "Len ro \<le> 1 \<Longrightarrow> Rotate z ro n = (Inr (), ro)"
  by (simp add: Rotate_def)

lemma Rotate_ok:
  assumes "ring_inv r"
  shows "\<exists>r'. Rotate z (Some r) n = (Inr (), Some r') \<and> ring_inv r' \<and>
     count r' = count r \<and> buf_len r' = buf_len r \<and>
     (\<forall>i. 0 \<le> i \<and> i < count r \<longrightarrow> lg r' i = lg r ((i + n) mod count r)) \<and>
     ((\<forall>i. count r \<le> i \<and> i < buf_len r \<longrightarrow> lg r i = z) \<longrightarrow>
      (\<forall>i. count r \<le> i \<and> i < buf_len r \<longrightarrow> lg r' i = z))"
proof (cases "count r \<le> 1")
  case True
  have "lg r i = lg r ((i + n) mod count r)" if "0 \<le> i" "i < count r" for i
  proof -
    have "count r = 1" "i = 0" using that True by simp_all
    then show ?thesis by simp
  qed
  then have "\<forall>i. 0 \<le> i \<and> i < count r \<longrightarrow> lg r i = lg r ((i + n) mod count r)" by blast
  moreover have "Rotate z (Some r) n = (Inr (), Some r)"
    using True by (intro Rotate_small) (simp add: Len_def)
  ultimately show ?thesis using assms by blast
next
  case False
  then have c: "1 < count r" "0 < count r" by simp_all
  have l: "0 < buf_len r" using assms c by (auto simp: ring_inv_def split: if_splits)
  note p = ring_inv_pos[OF assms l]
  let ?l = "buf_len r" and ?c = "count r"
  define n1 where "n1 = go_rem n ?c"
  note b = go_rem_bounds[OF c(2), of n, folded n1_def]
  have cong: "(i + n1) mod ?c = (i + n) mod ?c" for i
    unfolding n1_def by (rule shift_mod_cong) (rule go_rem_cong[OF c(2)])
  have R: "Rotate z (Some r) n = (case rotate_ring z r n of (res, r') \<Rightarrow> (res, Some r'))"
    using False by (simp add: Rotate_def Len_def)
  show ?thesis
  proof (cases "n1 = 0")
    case True
    then have "rotate_ring z r n = (Inr (), r)" using c by (simp add: rotate_ring_def n1_def)
    then have "Rotate z (Some r) n = (Inr (), Some r)" using R by simp
    moreover have "lg r i = lg r ((i + n) mod ?c)" if "0 \<le> i" "i < ?c" for i
      using cong[of i] True that by simp
    then have "\<forall>i. 0 \<le> i \<and> i < ?c \<longrightarrow> lg r i = lg r ((i + n) mod ?c)" by blast
    ultimately show ?thesis using assms by blast
  next
    case nz: False
    show ?thesis
    proof (cases "head r = tail r")
      case True
      then have full: "?c = ?l" using full_iff_head_tail[OF assms c(2)] by simp
      define r' where "r' = r\<lparr>head := (head r + n1) mod ?l, tail := (head r + n1) mod ?l\<rparr>"
      have "0 \<le> head r + n1 + ?l" using p b full by linarith
      then have "go_rem (head r + n1 + ?l) ?l = (head r + n1) mod ?l"
        using l by (simp add: go_rem_nonneg)
      then have rr: "rotate_ring z r n = (Inr (), r')"
        using c nz True l by (simp add: rotate_ring_def n1_def[symmetric] Let_def r'_def)
      have s: "lg r' i = lg r (i + n1)" for i
        by (rule lg_shift) (simp_all add: r'_def)
      have a: "lg r' i = lg r ((i + n) mod ?c)" for i
        using s[of i] lg_mod[of r "i + n1"] cong[of i] full by simp
      have "ring_inv r'"
        using l full p by (intro ring_invI) (simp_all add: r'_def buf_len_def)
      moreover have "count r' = ?c" "buf_len r' = ?l" by (simp_all add: r'_def buf_len_def)
      moreover have "Rotate z (Some r) n = (Inr (), Some r')" using R rr by simp
      moreover have "\<forall>i. 0 \<le> i \<and> i < ?c \<longrightarrow> lg r' i = lg r ((i + n) mod ?c)"
        using a by blast
      moreover have "\<forall>i. ?c \<le> i \<and> i < ?l \<longrightarrow> lg r' i = z" using full by auto
      ultimately show ?thesis by blast
    next
      case False
      then have part: "?c < ?l" using full_iff_head_tail[OF assms c(2)] p by simp
      show ?thesis
      proof (cases "n1 < 0")
        case True
        then have rr: "rotate_ring z r n = rotate_back z ?l (nat (- n1)) r"
          using c nz False by (simp add: rotate_ring_def n1_def[symmetric] Let_def)
        from rotate_back_lg[OF assms c(2) part, of z "nat (- n1)"] obtain r' where r':
          "rotate_back z ?l (nat (- n1)) r = (Inr (), r')" "ring_inv r'"
          "count r' = ?c" "buf_len r' = ?l"
          "\<And>i. 0 \<le> i \<Longrightarrow> i < ?c \<Longrightarrow> lg r' i = lg r ((i - int (nat (- n1))) mod ?c)"
          "(\<forall>i. ?c \<le> i \<and> i < ?l \<longrightarrow> lg r i = z) \<Longrightarrow> (\<forall>i. ?c \<le> i \<and> i < ?l \<longrightarrow> lg r' i = z)"
          by blast
        have "lg r' i = lg r ((i + n) mod ?c)" if "0 \<le> i" "i < ?c" for i
          using r'(5)[OF that] True cong[of i] by simp
        then have "\<forall>i. 0 \<le> i \<and> i < ?c \<longrightarrow> lg r' i = lg r ((i + n) mod ?c)" by blast
        moreover have "Rotate z (Some r) n = (Inr (), Some r')" using R rr r'(1) by simp
        moreover have "(\<forall>i. ?c \<le> i \<and> i < ?l \<longrightarrow> lg r i = z) \<longrightarrow>
            (\<forall>i. ?c \<le> i \<and> i < ?l \<longrightarrow> lg r' i = z)"
          using r'(6) by blast
        ultimately show ?thesis using r'(2-4) by blast
      next
        case pos: False
        then have rr: "rotate_ring z r n = rotate_fwd z ?l (nat n1) r"
          using c nz False by (simp add: rotate_ring_def n1_def[symmetric] Let_def)
        from rotate_fwd_lg[OF assms c(2) part, of z "nat n1"] obtain r' where r':
          "rotate_fwd z ?l (nat n1) r = (Inr (), r')" "ring_inv r'"
          "count r' = ?c" "buf_len r' = ?l"
          "\<And>i. 0 \<le> i \<Longrightarrow> i < ?c \<Longrightarrow> lg r' i = lg r ((i + int (nat n1)) mod ?c)"
          "(\<forall>i. ?c \<le> i \<and> i < ?l \<longrightarrow> lg r i = z) \<Longrightarrow> (\<forall>i. ?c \<le> i \<and> i < ?l \<longrightarrow> lg r' i = z)"
          by blast
        have "lg r' i = lg r ((i + n) mod ?c)" if "0 \<le> i" "i < ?c" for i
          using r'(5)[OF that] pos nz cong[of i] by simp
        then have "\<forall>i. 0 \<le> i \<and> i < ?c \<longrightarrow> lg r' i = lg r ((i + n) mod ?c)" by blast
        moreover have "Rotate z (Some r) n = (Inr (), Some r')" using R rr r'(1) by simp
        moreover have "(\<forall>i. ?c \<le> i \<and> i < ?l \<longrightarrow> lg r i = z) \<longrightarrow>
            (\<forall>i. ?c \<le> i \<and> i < ?l \<longrightarrow> lg r' i = z)"
          using r'(6) by blast
        ultimately show ?thesis using r'(2-4) by blast
      qed
    qed
  qed
qed

lemma Rotate_reduced:
  assumes "1 < count r"
  shows "Rotate z (Some r) n = Rotate z (Some r) (go_rem n (count r))"
proof -
  have "go_rem (go_rem n (count r)) (count r) = go_rem n (count r)"
    using assms by (intro go_rem_idem) simp
  then show ?thesis by (simp add: Rotate_def rotate_ring_def)
qed

lemma Rotate_zero:
  assumes "1 < count r" "go_rem n (count r) = 0"
  shows "Rotate z (Some r) n = (Inr (), Some r)"
  using assms by (simp add: Rotate_def rotate_ring_def Len_def)

lemma slot_nat_lt:
  assumes "0 < buf_len r"
  shows "nat ((head r + i) mod buf_len r) < length (buf r)"
proof -
  have a: "0 \<le> (head r + i) mod buf_len r" "(head r + i) mod buf_len r < buf_len r"
    using assms by simp_all
  have "(head r + i) mod buf_len r < int (length (buf r))" using a(2) by (simp only: buf_len_def)
  then show ?thesis using a(1) by linarith
qed

lemma slot_of_nat:
  assumes "0 < buf_len r" "k < length (buf r)"
  shows "(head r + (int k - head r) mod buf_len r) mod buf_len r = int k"
proof -
  have "(head r + (int k - head r) mod buf_len r) mod buf_len r = (head r + (int k - head r)) mod buf_len r"
    by (simp add: mod_simps)
  also have "\<dots> = int k mod buf_len r" by simp
  also have "\<dots> = int k" using assms by (simp add: buf_len_def)
  finally show ?thesis .
qed

lemma buf_nth_lg:
  assumes "0 < buf_len r" "k < length (buf r)"
  shows "buf r ! k = lg r ((int k - head r) mod buf_len r)"
  by (simp add: lg_def slot_of_nat[OF assms])

lemma gaps_zero_iff:
  assumes "reach_inv r"
  shows "gaps_zero z r = gaps_lg z r"
proof (cases "buf_len r = 0")
  case True
  then show ?thesis using assms by (auto simp: gaps_zero_def buf_len_def reach_inv_def)
next
  case False
  then have l: "0 < buf_len r" by (simp add: buf_len_def)
  note p = reach_inv_pos[OF assms l]
  let ?l = "buf_len r"
  show ?thesis
  proof
    assume g: "gaps_zero z r"
    show "gaps_lg z r"
    proof (intro allI impI)
      fix i assume i: "count r \<le> i \<and> i < ?l"
      define k where "k = nat ((head r + i) mod ?l)"
      have kl: "k < length (buf r)" unfolding k_def by (rule slot_nat_lt[OF l])
      have "k \<notin> set (occupied r)"
      proof
        assume "k \<in> set (occupied r)"
        then obtain j where j: "j < nat (count r)" "k = nat ((head r + int j) mod ?l)"
          by (auto simp: occupied_def)
        then have "(head r + i) mod ?l = (head r + int j) mod ?l"
          using l by (simp add: k_def eq_nat_nat_iff)
        then have "i = int j" using i j(1) p by (intro slot_inj[of i ?l "int j" "head r"]) linarith+
        then show False using i j(1) by linarith
      qed
      then have "buf r ! k = z" using g kl by (auto simp: gaps_zero_def list_all_iff)
      then show "lg r i = z" by (simp add: lg_def k_def)
    qed
  next
    assume g: "gaps_lg z r"
    have "k \<in> set (occupied r) \<or> buf r ! k = z" if k: "k < length (buf r)" for k
    proof -
      define i where "i = (int k - head r) mod ?l"
      have i: "0 \<le> i" "i < ?l" using l by (simp_all add: i_def)
      have s: "(head r + i) mod ?l = int k" unfolding i_def by (rule slot_of_nat[OF l k])
      show ?thesis
      proof (cases "i < count r")
        case True
        then have ni: "nat i < nat (count r)" and ke: "k = nat ((head r + int (nat i)) mod ?l)"
          using i s by simp_all
        have "nat i \<in> set [0..<nat (count r)]" using ni by simp
        then have "nat ((head r + int (nat i)) mod ?l) \<in> set (occupied r)"
          unfolding occupied_def set_map by (rule imageI)
        then have "k \<in> set (occupied r)" by (simp only: ke)
        then show ?thesis by simp
      next
        case False
        then have "lg r i = z" using g i by simp
        then show ?thesis using buf_nth_lg[OF l k] by (simp add: i_def)
      qed
    qed
    then show "gaps_zero z r" by (simp add: gaps_zero_def list_all_iff)
  qed
qed

lemma New_ok:
  assumes "New z c = Inr r"
  shows "reach_ok z r" "ring_inv r"
proof -
  have r: "r = \<lparr>buf = replicate (nat c) z, head = 0, tail = 0, count = 0\<rparr>" "0 \<le> c"
    using assms by (auto simp: New_def split: if_splits)
  show "ring_inv r" using r by (simp add: ring_inv_def buf_len_def)
  then have "reach_inv r" by (rule ring_inv_reach)
  moreover have "lg r i = z" if "0 \<le> i" "i < buf_len r" for i
  proof -
    have "0 < buf_len r" using that by simp
    then have "nat ((head r + i) mod buf_len r) < length (buf r)" by (rule slot_nat_lt)
    then show ?thesis using r by (simp add: lg_def)
  qed
  ultimately show "reach_ok z r" using r by (simp add: buf_len_def)
qed

lemma mod_add1_cong:
  fixes a b l :: int
  assumes "a mod l = b mod l"
  shows "(a + 1) mod l = (b + 1) mod l"
  by (rule mod_add_cong[OF assms refl])

lemma PushBack_reach:
  assumes "reach_ok z r"
  shows "reach_ok z (snd (PushBack r v))"
proof (cases "in_buf r (tail r)")
  case False
  then show ?thesis using assms by (simp add: PushBack_fail)
next
  case True
  then have t: "tail r < buf_len r" and l: "0 < buf_len r" by (simp_all add: in_buf_def)
  note ri = conjunct1[OF assms]
  note p = reach_inv_pos[OF ri l]
  obtain res r' where b: "PushBack r v = (res, r')" by (cases "PushBack r v")
  show ?thesis
  proof (cases "count r = buf_len r")
    case True
    note B = PushBack_full_lg[OF ri t True b]
    have "(tail r + 1) mod buf_len r = (head r + count r + 1) mod buf_len r"
      using p(5) by (rule mod_add1_cong)
    also have "\<dots> = ((head r + 1) mod buf_len r + count r) mod buf_len r"
      by (simp add: mod_simps algebra_simps)
    finally have "tail r' mod buf_len r' = (head r' + count r') mod buf_len r'"
      using B(2-5) by simp
    then have "reach_inv r'"
      using B(2-5) p l by (intro reach_invI) (simp_all add: less_imp_le)
    then show ?thesis using b B(4,5) True by auto
  next
    case False
    then have c: "count r < buf_len r" using p by simp
    note B = PushBack_nonfull_lg[OF ri t c b]
    have "(tail r + 1) mod buf_len r = (head r + count r + 1) mod buf_len r"
      using p(5) by (rule mod_add1_cong)
    then have "tail r' mod buf_len r' = (head r' + count r') mod buf_len r'"
      using B(2-5) by (simp add: add.assoc)
    then have "reach_inv r'"
      using B(2-5) p l c by (intro reach_invI) (simp_all add: less_imp_le)
    moreover have "lg r' i = z" if "count r' \<le> i" "i < buf_len r'" for i
      using B(6)[of i] B(4,5) that p assms by simp
    ultimately show ?thesis using b by simp
  qed
qed

lemma PushFront_reach:
  assumes "reach_ok z r"
  shows "reach_ok z (snd (PushFront r v))"
proof (cases "buf_len r = 0")
  case True
  then show ?thesis using assms by (simp add: PushFront_fail)
next
  case False
  then have l: "0 < buf_len r" by (simp add: buf_len_def)
  note ri = conjunct1[OF assms]
  note p = reach_inv_pos[OF ri l]
  obtain res r' where f: "PushFront r v = (res, r')" by (cases "PushFront r v")
  note F = PushFront_lg[OF ri l f]
  have e1: "(tail r - 1) mod buf_len r = ((head r - 1) mod buf_len r + count r) mod buf_len r"
    using mod_pred_cong[OF p(5)] by (simp add: mod_simps algebra_simps)
  have e2: "tail r mod buf_len r = ((head r - 1) mod buf_len r + (count r + 1)) mod buf_len r"
    using p(5) by (simp add: mod_simps)
  have "tail r' mod buf_len r' = (head r' + count r') mod buf_len r'"
    using F(2-5) e1 e2 by (cases "count r = buf_len r") simp_all
  then have "reach_inv r'"
    using F(2-5) p l by (intro reach_invI) (auto simp: less_imp_le)
  moreover have "lg r' i = z" if "count r' \<le> i" "i < buf_len r'" for i
    using F(6)[of i] F(4,5) that p assms by (auto split: if_splits)
  ultimately show ?thesis using f by simp
qed

lemma PopFront_reach:
  assumes "reach_ok z r"
  shows "reach_ok z (snd (PopFront z r))"
proof (cases "count r \<le> 0")
  case True
  then show ?thesis using assms by (simp add: PopFront_fail)
next
  case False
  then have c: "0 < count r" by simp
  note ri = conjunct1[OF assms]
  have l: "0 < buf_len r" using ri c by (auto simp: reach_inv_def split: if_splits)
  note p = reach_inv_pos[OF ri l]
  obtain res r' where f: "PopFront z r = (res, r')" by (cases "PopFront z r")
  note P = PopFront_lg[OF ri c f]
  have "tail r mod buf_len r = ((head r + 1) mod buf_len r + (count r - 1)) mod buf_len r"
    using p(5) by (simp add: mod_simps)
  then have "tail r' mod buf_len r' = (head r' + count r') mod buf_len r'"
    using P(2-5) by simp
  then have "reach_inv r'"
    using P(2-5) p l c by (intro reach_invI) simp_all
  moreover have "lg r' i = z" if "count r' \<le> i" "i < buf_len r'" for i
    using P(6)[of i] P(4,5) that p c assms by auto
  ultimately show ?thesis using f by simp
qed

lemma PopBack_reach:
  assumes "reach_ok z r"
  shows "reach_ok z (snd (PopBack z r))"
proof (cases "count r \<le> 0")
  case True
  then show ?thesis using assms by (simp add: PopBack_fail)
next
  case False
  then have c: "0 < count r" by simp
  note ri = conjunct1[OF assms]
  have l: "0 < buf_len r" using ri c by (auto simp: reach_inv_def split: if_splits)
  note p = reach_inv_pos[OF ri l]
  obtain res r' where f: "PopBack z r = (res, r')" by (cases "PopBack z r")
  note P = PopBack_lg[OF ri c f]
  have "(tail r - 1) mod buf_len r = (head r + (count r - 1)) mod buf_len r"
    using mod_pred_cong[OF p(5)] by (simp add: add_diff_eq)
  then have "tail r' mod buf_len r' = (head r' + count r') mod buf_len r'"
    using P(2-5) by simp
  then have "reach_inv r'"
    using P(2-5) p l c by (intro reach_invI) (simp_all add: less_imp_le)
  moreover have "lg r' i = z" if "count r' \<le> i" "i < buf_len r'" for i
    using P(6)[of i] P(4,5) that p c assms by auto
  ultimately show ?thesis using f by simp
qed

lemma Set_reach:
  assumes "reach_ok z r" "snd (Set (Some r) i v) = Some r'"
  shows "reach_ok z r'"
proof (cases "0 \<le> i \<and> i < count r")
  case False
  then have "Set (Some r) i v = (Inl (OutOfRangeText i (count r)), Some r)"
    by (intro Set_fail) linarith
  then show ?thesis using assms by simp
next
  case True
  note ri = conjunct1[OF assms(1)]
  have l: "0 < buf_len r" using ri True by (auto simp: reach_inv_def split: if_splits)
  note p = reach_inv_pos[OF ri l]
  obtain res ro' where s: "Set (Some r) i v = (res, ro')" by (cases "Set (Some r) i v")
  from Set_lg[OF ri _ _ s] True assms(2) s have S:
    "head r' = head r" "tail r' = tail r" "count r' = count r" "buf_len r' = buf_len r"
    "\<And>j. 0 \<le> j \<Longrightarrow> j < buf_len r \<Longrightarrow> lg r' j = (if j = i then v else lg r j)"
    by auto
  have "reach_inv r'" using reach_inv_cong[OF ri S(1-4)] .
  moreover have "lg r' j = z" if "count r' \<le> j" "j < buf_len r'" for j
    using S(5)[of j] S(3,4) that p True assms(1) by simp
  ultimately show ?thesis by simp
qed

lemma rotate_fwd_fail:
  "\<not> in_buf r (tail r) \<Longrightarrow> rotate_fwd z l (Suc k) r = (Inl RuntimeIndexOutOfRange, r)"
  by simp

lemma rotate_back_reach:
  assumes "reach_ok z r" "0 < buf_len r"
  shows "reach_ok z (snd (rotate_back z (buf_len r) k r))"
  using assms
proof (induction k arbitrary: r)
  case 0
  then show ?case by simp
next
  case (Suc k)
  note ri = conjunct1[OF Suc.prems(1)]
  note l = Suc.prems(2)
  note p = reach_inv_pos[OF ri l]
  let ?l = "buf_len r" and ?c = "count r"
  from rotate_back_step[OF ri l, of z k] obtain r1 where r1:
    "rotate_back z ?l (Suc k) r = rotate_back z ?l k r1"
    "head r1 = (head r - 1) mod ?l" "tail r1 = (tail r - 1) mod ?l"
    "count r1 = ?c" "buf_len r1 = ?l"
    "\<And>i. lg r1 i = (if (i - ?c) mod ?l = 0 then z
                      else if i mod ?l = 0 then lg r (?c - 1) else lg r (i - 1))"
    by blast
  have "(tail r - 1) mod ?l = ((head r - 1) mod ?l + ?c) mod ?l"
    using mod_pred_cong[OF p(5)] by (simp add: mod_simps algebra_simps)
  then have "tail r1 mod buf_len r1 = (head r1 + count r1) mod buf_len r1"
    using r1(2-5) by simp
  then have inv1: "reach_inv r1"
    using r1(2-5) p l by (intro reach_invI) (simp_all add: less_imp_le)
  have g1: "lg r1 i = z" if i: "?c \<le> i" "i < ?l" for i
  proof (cases "i = ?c")
    case True
    then show ?thesis using r1(6)[of i] by simp
  next
    case False
    then have "i mod ?l \<noteq> 0" using i p by simp
    moreover have "lg r (i - 1) = z" using Suc.prems(1) i False by simp
    ultimately show ?thesis using r1(6)[of i] by simp
  qed
  have "reach_ok z (snd (rotate_back z (buf_len r1) k r1))"
    using inv1 g1 l r1(4,5) by (intro Suc.IH) simp_all
  then show ?case using r1(1,5) by simp
qed

lemma Rotate_reach:
  assumes "reach_ok z r" "snd (Rotate z (Some r) n) = Some r'"
  shows "reach_ok z r'"
proof (cases "ring_inv r")
  case True
  from Rotate_ok[OF True, of z n] obtain r2 where r2:
    "Rotate z (Some r) n = (Inr (), Some r2)" "ring_inv r2" "count r2 = count r"
    "buf_len r2 = buf_len r"
    "gaps_lg z r \<longrightarrow> (\<forall>i. count r \<le> i \<and> i < buf_len r \<longrightarrow> lg r2 i = z)"
    by blast
  have e: "r' = r2" using r2(1) assms(2) by simp
  have "reach_inv r2" by (rule ring_inv_reach[OF r2(2)])
  moreover have "gaps_lg z r2" unfolding r2(3,4) using r2(5) assms(1) by blast
  ultimately show ?thesis unfolding e by blast
next
  case False
  note ri = conjunct1[OF assms(1)]
  have nz: "buf_len r \<noteq> 0 \<and> \<not> tail r < buf_len r"
    using False ri by (simp add: ring_inv_iff)
  then have l: "0 < buf_len r" by (simp add: buf_len_def)
  note p = reach_inv_pos[OF ri l]
  have t: "tail r = buf_len r" using p(4) nz by simp
  show ?thesis
  proof (cases "count r \<le> 1")
    case True
    then show ?thesis using assms Rotate_small[of "Some r" z n] by (simp add: Len_def)
  next
    case c: False
    define n1 where "n1 = go_rem n (count r)"
    have R: "snd (rotate_ring z r n) = r'"
      using c assms(2) by (simp add: Rotate_def Len_def split: prod.splits)
    have ht: "head r \<noteq> tail r" using p t by simp
    consider "n1 = 0" | "n1 < 0" | "0 < n1" by linarith
    then show ?thesis
    proof cases
      case 1
      then have "rotate_ring z r n = (Inr (), r)" using c by (simp add: rotate_ring_def n1_def)
      then show ?thesis using R assms(1) by simp
    next
      case 2
      then have "rotate_ring z r n = rotate_back z (buf_len r) (nat (- n1)) r"
        using c ht by (simp add: rotate_ring_def n1_def[symmetric] Let_def)
      then show ?thesis using R rotate_back_reach[OF assms(1) l, of "nat (- n1)"] by simp
    next
      case 3
      then obtain k where k: "nat n1 = Suc k" by (cases "nat n1") simp_all
      have "\<not> in_buf r (tail r)" using t by (simp add: in_buf_def)
      then have "rotate_fwd z (buf_len r) (nat n1) r = (Inl RuntimeIndexOutOfRange, r)"
        unfolding k by (rule rotate_fwd_fail)
      moreover have "rotate_ring z r n = rotate_fwd z (buf_len r) (nat n1) r"
        using c ht 3 by (simp add: rotate_ring_def n1_def[symmetric] Let_def)
      ultimately show ?thesis using R assms(1) by simp
    qed
  qed
qed

lemma Insert_back_fail:
  assumes "0 \<le> at" "at \<le> count r" "count r \<noteq> buf_len r" "\<not> at * 2 < count r"
    "\<not> in_buf r (tail r)"
  shows "Insert r at v = (Inl RuntimeIndexOutOfRange, r)"
  using assms by (simp add: Insert_def Full_def PushBack_fail)

lemma Insert_reach:
  assumes "reach_ok z r"
  shows "reach_ok z (snd (Insert r at v))"
proof -
  note ri = conjunct1[OF assms]
  consider "at < 0 \<or> at > count r" | "0 \<le> at" "at \<le> count r" "count r = buf_len r"
    | "0 \<le> at" "at \<le> count r" "count r \<noteq> buf_len r" by linarith
  then show ?thesis
  proof cases
    case 1 then show ?thesis using Insert_fail(1)[of at r v] assms by simp
  next
    case 2 then show ?thesis using Insert_fail(2)[of at r v] assms by simp
  next
    case 3
    then have c: "count r < buf_len r" using ri by (simp add: reach_inv_def)
    then have l: "0 < buf_len r" using ri by (auto simp: reach_inv_def split: if_splits)
    note p = reach_inv_pos[OF ri l]
    obtain res r' where ins: "Insert r at v = (res, r')" by (cases "Insert r at v")
    show ?thesis
    proof (cases "at * 2 < count r")
      case True
      note I = Insert_front_lg[OF ri c 3(1,2) True ins]
      have "tail r mod buf_len r = ((head r - 1) mod buf_len r + (count r + 1)) mod buf_len r"
        using p(5) by (simp add: mod_simps)
      then have "tail r' mod buf_len r' = (head r' + count r') mod buf_len r'"
        using I(2-5) by simp
      then have "reach_inv r'"
        using I(2-5) p l c by (intro reach_invI) simp_all
      moreover have "lg r' i = z" if "count r' \<le> i" "i < buf_len r'" for i
        using I(6)[of i] I(4,5) that p 3 assms by auto
      ultimately show ?thesis using ins by simp
    next
      case False
      show ?thesis
      proof (cases "in_buf r (tail r)")
        case nb: False
        then show ?thesis using Insert_back_fail[OF 3 False nb, of v] assms by simp
      next
        case True
        then have t: "tail r < buf_len r" by (simp add: in_buf_def)
        note I = Insert_back_lg[OF ri c 3(1,2) False t ins]
        have "(tail r + 1) mod buf_len r = (head r + count r + 1) mod buf_len r"
          using p(5) by (rule mod_add1_cong)
        then have "tail r' mod buf_len r' = (head r' + count r') mod buf_len r'"
          using I(2-5) by (simp add: add.assoc)
        then have "reach_inv r'"
          using I(2-5) p l c by (intro reach_invI) (simp_all add: less_imp_le)
        moreover have "lg r' i = z" if "count r' \<le> i" "i < buf_len r'" for i
          using I(6)[of i] I(4,5) that p 3 assms by auto
        ultimately show ?thesis using ins by simp
      qed
    qed
  qed
qed

lemma Remove_reach:
  assumes "reach_ok z r"
  shows "reach_ok z (snd (Remove z r at))"
proof (cases "0 \<le> at \<and> at < count r")
  case False
  then have "Remove z r at = (Inl (OutOfRangeText at (count r)), r)"
    by (intro Remove_fail) linarith
  then show ?thesis using assms by simp
next
  case True
  then have a: "0 \<le> at" "at < count r" by simp_all
  note ri = conjunct1[OF assms]
  have l: "0 < buf_len r" using ri a by (auto simp: reach_inv_def split: if_splits)
  note p = reach_inv_pos[OF ri l]
  obtain res r' where rm: "Remove z r at = (res, r')" by (cases "Remove z r at")
  from Remove_ok[OF ri a, of z] rm have inv': "reach_inv r'" by auto
  have "lg r' i = z" if i: "count r' \<le> i" "i < buf_len r'" for i
  proof (cases "at * 2 < count r")
    case True
    note R = Remove_front_lg[OF ri a True rm]
    show ?thesis using R(6)[of i] R(4,5) i p a assms by auto
  next
    case False
    note R = Remove_back_lg[OF ri a False rm]
    show ?thesis using R(6)[of i] R(4,5) i p a assms by auto
  qed
  then show ?thesis using inv' rm by simp
qed

lemma reset_loop_lg:
  assumes "0 < buf_len r" "0 \<le> i" "i + int k \<le> buf_len r" "0 \<le> head r"
  shows "\<exists>r'. reset_loop z (buf_len r) (head r) i k r = (Inr (), r') \<and>
     head r' = head r \<and> tail r' = tail r \<and> count r' = count r \<and> buf_len r' = buf_len r \<and>
     (\<forall>j. 0 \<le> j \<and> j < buf_len r \<longrightarrow>
        lg r' j = (if i \<le> j \<and> j < i + int k then z else lg r j))"
  using assms
proof (induction k arbitrary: r i)
  case 0
  then show ?case by auto
next
  case (Suc k)
  note l = Suc.prems(1)
  let ?l = "buf_len r"
  define r1 where "r1 = r\<lparr>buf := (buf r)[nat ((head r + i) mod ?l) := z]\<rparr>"
  have r1: "buf r1 = (buf r)[nat ((head r + i) mod ?l) := z]" "head r1 = head r"
    "tail r1 = tail r" "count r1 = count r" "buf_len r1 = ?l"
    by (simp_all add: r1_def buf_len_def)
  have g: "go_rem (head r + i) ?l = (head r + i) mod ?l"
    using Suc.prems by (simp add: go_rem_nonneg)
  have w: "lg r1 j = (if j = i then z else lg r j)" if "0 \<le> j" "j < ?l" for j
  proof -
    have "lg r1 j = (if (j - i) mod ?l = 0 then z else lg r j)"
      by (rule lg_upd_slot[OF l r1(1,2)])
    moreover have "((j - i) mod ?l = 0) = (j - i = 0)"
      using that Suc.prems by (intro mod_zero_window2) linarith+
    ultimately show ?thesis by simp
  qed
  have step: "reset_loop z ?l (head r) i (Suc k) r = reset_loop z ?l (head r) (i + 1) k r1"
    using l g slot_bounds[OF l, of i] by (simp add: Let_def in_buf_def r1_def)
  have "\<exists>r'. reset_loop z (buf_len r1) (head r1) (i + 1) k r1 = (Inr (), r') \<and>
     head r' = head r1 \<and> tail r' = tail r1 \<and> count r' = count r1 \<and> buf_len r' = buf_len r1 \<and>
     (\<forall>j. 0 \<le> j \<and> j < buf_len r1 \<longrightarrow>
        lg r' j = (if i + 1 \<le> j \<and> j < i + 1 + int k then z else lg r1 j))"
    using Suc.prems r1(2,5) by (intro Suc.IH) simp_all
  then obtain r' where r': "reset_loop z ?l (head r) (i + 1) k r1 = (Inr (), r')"
    "head r' = head r" "tail r' = tail r" "count r' = count r" "buf_len r' = ?l"
    "\<And>j. 0 \<le> j \<Longrightarrow> j < ?l \<Longrightarrow>
        lg r' j = (if i + 1 \<le> j \<and> j < i + 1 + int k then z else lg r1 j)"
    by (auto simp: r1)
  have "lg r' j = (if i \<le> j \<and> j < i + int (Suc k) then z else lg r j)"
    if j: "0 \<le> j" "j < ?l" for j
    using r'(6)[OF j] w[OF j] by auto
  then show ?case using step r'(1-5) by auto
qed

lemma buf_all_z:
  assumes "0 < buf_len r" "\<And>j. 0 \<le> j \<Longrightarrow> j < buf_len r \<Longrightarrow> lg r j = z"
  shows "buf r = replicate (length (buf r)) z"
proof (rule nth_equalityI)
  show "length (buf r) = length (replicate (length (buf r)) z)" by simp
  fix k assume k: "k < length (buf r)"
  have "buf r ! k = lg r ((int k - head r) mod buf_len r)" by (rule buf_nth_lg[OF assms(1) k])
  also have "\<dots> = z" using assms(1) by (intro assms(2)) simp_all
  finally show "buf r ! k = replicate (length (buf r)) z ! k" using k by simp
qed

lemma Reset_ok:
  assumes "reach_ok z r"
  shows "\<exists>r'. Reset z r = (Inr (), r') \<and> buf r' = replicate (length (buf r)) z \<and>
     head r' = 0 \<and> tail r' = 0 \<and> count r' = 0"
proof (cases "buf_len r = 0")
  case True
  then have "count r = 0" "buf r = []" using assms by (simp_all add: reach_inv_def buf_len_def)
  then show ?thesis by (simp add: Reset_def Len_def Let_def)
next
  case False
  then have l: "0 < buf_len r" by (simp add: buf_len_def)
  note ri = conjunct1[OF assms]
  note p = reach_inv_pos[OF ri l]
  have "\<exists>r'. reset_loop z (buf_len r) (head r) 0 (nat (count r)) r = (Inr (), r') \<and>
     head r' = head r \<and> tail r' = tail r \<and> count r' = count r \<and> buf_len r' = buf_len r \<and>
     (\<forall>j. 0 \<le> j \<and> j < buf_len r \<longrightarrow>
        lg r' j = (if 0 \<le> j \<and> j < 0 + int (nat (count r)) then z else lg r j))"
    using l p by (intro reset_loop_lg) simp_all
  then obtain r1 where r1: "reset_loop z (buf_len r) (head r) 0 (nat (count r)) r = (Inr (), r1)"
    "head r1 = head r" "buf_len r1 = buf_len r"
    "\<And>j. 0 \<le> j \<Longrightarrow> j < buf_len r \<Longrightarrow> lg r1 j = (if j < count r then z else lg r j)"
    using p(6) by auto
  have "lg r1 j = z" if "0 \<le> j" "j < buf_len r1" for j
    using r1(4)[of j] r1(3) that assms by auto
  then have "buf r1 = replicate (length (buf r1)) z"
    using l r1(3) by (intro buf_all_z) simp_all
  moreover have "length (buf r1) = length (buf r)" using r1(3) by (simp add: buf_len_def)
  ultimately have "buf r1 = replicate (length (buf r)) z" by simp
  then show ?thesis using r1(1) by (simp add: Reset_def Len_def Let_def)
qed

lemma reach_ok_zeros:
  assumes "buf r = replicate m z" "head r = 0" "tail r = 0" "count r = 0"
  shows "reach_ok z r"
proof -
  have "reach_inv r" using assms by (simp add: reach_inv_def buf_len_def)
  moreover have "lg r i = z" if "0 \<le> i" "i < buf_len r" for i
  proof -
    have "0 < buf_len r" using that by simp
    then have "nat ((head r + i) mod buf_len r) < length (buf r)" by (rule slot_nat_lt)
    then show ?thesis using assms(1) by (simp add: lg_def)
  qed
  ultimately show ?thesis using assms(4) by simp
qed

lemma Reset_reach:
  assumes "reach_ok z r"
  shows "reach_ok z (snd (Reset z r))"
proof -
  from Reset_ok[OF assms] obtain r' where r': "Reset z r = (Inr (), r')"
    "buf r' = replicate (length (buf r)) z" "head r' = 0" "tail r' = 0" "count r' = 0"
    by blast
  show ?thesis using reach_ok_zeros[OF r'(2-5)] r'(1) by simp
qed

lemma go_copy_props:
  assumes "off \<le> length dst" "go_copy dst off src = (n, nb)"
  shows "0 \<le> n" "nat n \<le> length dst - off" "length nb = length dst"
    "\<And>k. off + nat n \<le> k \<Longrightarrow> k < length dst \<Longrightarrow> nb ! k = dst ! k"
proof -
  define c where "c = min (length dst - off) (length src)"
  have n: "n = int c" and nb: "nb = take off dst @ take c src @ drop (off + c) dst"
    using assms(2) by (simp_all add: go_copy_def Let_def c_def)
  have c: "c \<le> length dst - off" "c \<le> length src" by (simp_all add: c_def)
  show "0 \<le> n" "nat n \<le> length dst - off" using n c by simp_all
  show "length nb = length dst" using assms(1) c by (simp add: nb)
  fix k assume k: "off + nat n \<le> k" "k < length dst"
  then obtain d where d: "k = off + c + d" using n by (auto simp: le_iff_add)
  have "nb ! (off + c + d) = dst ! (off + c + d)"
    using assms(1) c k(2) unfolding nb d by (simp add: nth_append)
  then show "nb ! k = dst ! k" unfolding d .
qed

lemma Resize_shape:
  assumes "Resize z r n = (res, r')"
  shows "r' = r \<or> (head r' = 0 \<and> tail r' = count r' \<and> 0 \<le> count r' \<and>
     count r' \<le> buf_len r' \<and>
     (\<forall>k. nat (count r') \<le> k \<and> k < length (buf r') \<longrightarrow> buf r' ! k = z))"
proof (cases "count r = n \<or> n < 0")
  case True
  have "Resize z r n = (Inr (), r) \<or> Resize z r n = (Inl RuntimeMakeLen, r)"
    using True by (cases "count r = n") (simp_all add: Resize_def)
  then show ?thesis using assms by auto
next
  case False
  define m where "m = nat n"
  define newBuf where "newBuf = replicate m z"
  have nl: "length newBuf = m" by (simp add: newBuf_def)
  have fin: "head r2 = 0 \<and> tail r2 = count r2 \<and> 0 \<le> count r2 \<and> count r2 \<le> buf_len r2 \<and>
     (\<forall>k. nat (count r2) \<le> k \<and> k < length (buf r2) \<longrightarrow> buf r2 ! k = z)"
    if "r2 = r\<lparr>count := c, head := 0, tail := c, buf := nb\<rparr>" "0 \<le> c" "nat c \<le> length nb"
      "\<And>k. nat c \<le> k \<Longrightarrow> k < length nb \<Longrightarrow> nb ! k = z" for r2 c nb
    using that by (simp add: buf_len_def)
  show ?thesis
  proof (cases "tail r > head r")
    case True
    show ?thesis
    proof (cases "go_slice (buf r) (head r) (tail r)")
      case (Inl e)
      then show ?thesis using assms False True by (simp add: Resize_def)
    next
      case (Inr src)
      obtain c nb where cp: "go_copy newBuf 0 src = (c, nb)" by (cases "go_copy newBuf 0 src")
      note C = go_copy_props[OF _ cp, simplified]
      have r': "r' = r\<lparr>count := c, head := 0, tail := c, buf := nb\<rparr>"
        using assms False True Inr cp by (simp add: Resize_def newBuf_def m_def)
      have "nb ! k = z" if "nat c \<le> k" "k < length nb" for k
        using C(4)[of k] that C(3) nl by (simp add: newBuf_def)
      then show ?thesis using fin[OF r' C(1)] C(2,3) by simp
    qed
  next
    case ht: False
    show ?thesis
    proof (cases "go_slice (buf r) (head r) (buf_len r)")
      case (Inl e)
      then show ?thesis using assms False ht by (simp add: Resize_def)
    next
      case (Inr src)
      obtain c nb where cp: "go_copy newBuf 0 src = (c, nb)" by (cases "go_copy newBuf 0 src")
      note C = go_copy_props[OF _ cp, simplified]
      have z1: "nb ! k = z" if "nat c \<le> k" "k < length nb" for k
        using C(4)[of k] that C(3) nl by (simp add: newBuf_def)
      show ?thesis
      proof (cases "c < buf_len r")
        case nlt: False
        have r': "r' = r\<lparr>count := c, head := 0, tail := c, buf := nb\<rparr>"
          using assms False ht Inr cp nlt by (simp add: Resize_def newBuf_def m_def)
        show ?thesis using fin[OF r' C(1)] C(2,3) z1 by simp
      next
        case True
        show ?thesis
        proof (cases "go_slice (buf r) 0 (tail r)")
          case (Inl e)
          then show ?thesis using assms False ht Inr cp True
            by (simp add: Resize_def newBuf_def m_def)
        next
          case src2: (Inr src2)
          obtain c2 nb2 where cp2: "go_copy nb (nat c) src2 = (c2, nb2)"
            by (cases "go_copy nb (nat c) src2")
          have off: "nat c \<le> length nb" using C(2,3) by simp
          note D = go_copy_props[OF off cp2]
          have r': "r' = r\<lparr>count := c + c2, head := 0, tail := c + c2, buf := nb2\<rparr>"
            using assms False ht Inr cp True src2 cp2
            by (simp add: Resize_def newBuf_def m_def)
          have s: "nat (c + c2) = nat c + nat c2" using C(1) D(1) by (simp add: nat_add_distrib)
          have "nb2 ! k = z" if k: "nat (c + c2) \<le> k" "k < length nb2" for k
          proof -
            have "nb2 ! k = nb ! k" using D(4)[of k] k s D(3) by simp
            then show ?thesis using z1[of k] k s D(3) by simp
          qed
          moreover have "nat (c + c2) \<le> length nb2" using s D(2,3) off by simp
          moreover have "0 \<le> c + c2" using C(1) D(1) by simp
          ultimately show ?thesis using fin[OF r'] by simp
        qed
      qed
    qed
  qed
qed

lemma Resize_reach:
  assumes "reach_ok z r"
  shows "reach_ok z (snd (Resize z r n))"
proof -
  obtain res r' where rs: "Resize z r n = (res, r')" by (cases "Resize z r n")
  from Resize_shape[OF rs] show ?thesis
  proof
    assume "r' = r"
    then show ?thesis using rs assms by simp
  next
    assume a: "head r' = 0 \<and> tail r' = count r' \<and> 0 \<le> count r' \<and> count r' \<le> buf_len r' \<and>
     (\<forall>k. nat (count r') \<le> k \<and> k < length (buf r') \<longrightarrow> buf r' ! k = z)"
    then have "reach_inv r'" by (simp add: reach_inv_def)
    moreover have "lg r' i = z" if i: "count r' \<le> i" "i < buf_len r'" for i
    proof -
      have "0 \<le> i" using a i by linarith
      then have "(head r' + i) mod buf_len r' = i" using a i by simp
      moreover have "nat (count r') \<le> nat i" "nat i < length (buf r')"
        using i \<open>0 \<le> i\<close> by (simp_all add: buf_len_def)
      ultimately show ?thesis using a by (simp add: lg_def)
    qed
    ultimately show ?thesis using rs by simp
  qed
qed

lemma reachable_ok:
  assumes "reachable z r"
  shows "reach_ok z r"
  using assms
proof (induction rule: reachable.induct)
  case (reach_New c r)
  then show ?case by (rule New_ok(1))
next
  case (reach_PushBack r v)
  from reach_PushBack.IH show ?case by (rule PushBack_reach)
next
  case (reach_PushFront r v)
  from reach_PushFront.IH show ?case by (rule PushFront_reach)
next
  case (reach_PopFront r)
  from reach_PopFront.IH show ?case by (rule PopFront_reach)
next
  case (reach_PopBack r)
  from reach_PopBack.IH show ?case by (rule PopBack_reach)
next
  case (reach_Set r i v r')
  from reach_Set.IH reach_Set.hyps(2) show ?case by (rule Set_reach)
next
  case (reach_Rotate r n r')
  from reach_Rotate.IH reach_Rotate.hyps(2) show ?case by (rule Rotate_reach)
next
  case (reach_Insert r at v)
  from reach_Insert.IH show ?case by (rule Insert_reach)
next
  case (reach_Remove r at)
  from reach_Remove.IH show ?case by (rule Remove_reach)
next
  case (reach_Reset r)
  from reach_Reset.IH show ?case by (rule Reset_reach)
next
  case (reach_Resize r n)
  from reach_Resize.IH show ?case by (rule Resize_reach)
qed

lemma reachable_gaps_zero:
  assumes "reachable z r"
  shows "gaps_zero z r"
  using reachable_ok[OF assms] gaps_zero_iff[of r z] by blast

lemma Rotate_Some: "\<exists>r'. snd (Rotate z (Some r) n) = Some r'"
  by (simp add: Rotate_def split: prod.splits)

lemma ex4_78_reachable: "reachable 0 ex4_78"
proof -
  have "New 0 4 = Inr ex4_empty" by (simp add: New_def ex4_empty_def numeral_eq_Suc)
  then have "reachable 0 ex4_empty" by (rule reach_New)
  then have "reachable 0 (snd (PushBack ex4_empty 7))" by (rule reach_PushBack)
  moreover have "PushBack ex4_empty 7 = (Inr (), ex4_7)"
    by (simp add: ex_defs op_defs)
  ultimately have "reachable 0 ex4_7" by simp
  then have "reachable 0 (snd (PushBack ex4_7 8))" by (rule reach_PushBack)
  moreover have "PushBack ex4_7 8 = (Inr (), ex4_78)"
    by (simp add: ex_defs op_defs)
  ultimately show ?thesis by simp
qed

lemmas ex3_defs = ex3_empty_def ex3_1_def ex3_12_def ex3_123_def ex2_resized_def

lemmas ex2_defs = ex3_defs ex2_popped_def ex2_front3_def ex2_rotated_def

lemma go_copy_nth:
  assumes "off \<le> length dst" "go_copy dst off src = (n, nb)"
  shows "\<And>k. k < off \<Longrightarrow> nb ! k = dst ! k"
    "\<And>k. off \<le> k \<Longrightarrow> k < off + nat n \<Longrightarrow> nb ! k = src ! (k - off)"
    "nat n = min (length dst - off) (length src)"
proof -
  define c where "c = min (length dst - off) (length src)"
  have n: "n = int c" and nb: "nb = take off dst @ take c src @ drop (off + c) dst"
    using assms(2) by (simp_all add: go_copy_def Let_def c_def)
  show "nat n = min (length dst - off) (length src)" using n by (simp add: c_def)
  show "nb ! k = dst ! k" if "k < off" for k
    using that assms(1) by (simp add: nb nth_append)
  show "nb ! k = src ! (k - off)" if k: "off \<le> k" "k < off + nat n" for k
  proof -
    obtain d where d: "k = off + d" using k(1) by (auto simp: le_iff_add)
    have "d < c" using k(2) n d by simp
    then have "nb ! (off + d) = src ! d"
      using assms(1) unfolding nb by (simp add: nth_append c_def)
    then show ?thesis unfolding d by simp
  qed
qed

lemma wrap_slot:
  fixes x l :: int
  assumes "0 \<le> x" "x < 2 * l"
  shows "x mod l = (if x < l then x else x - l)"
proof (cases "x < l")
  case True
  then show ?thesis using assms by simp
next
  case False
  then have b: "0 \<le> x - l" "x - l < l" using assms by simp_all
  have "x mod l = (x - l + l) mod l" by simp
  also have "\<dots> = (x - l) mod l" by (rule mod_add_self2)
  also have "\<dots> = x - l" using b by (rule mod_pos_pos_trivial)
  finally show ?thesis using False by simp
qed

lemma int_min_nat:
  fixes a c n :: int
  assumes "0 \<le> a" "0 \<le> n" "0 \<le> c" "nat a = min (nat n) (nat c)"
  shows "a = min c n"
proof (cases "n \<le> c")
  case True
  then have "nat a = nat n" using assms by (simp add: min_def)
  then have "a = n" using assms(1,2) by simp
  then show ?thesis using True by (simp add: min_def)
next
  case False
  then have "nat a = nat c" using assms by (simp add: min_def)
  then have "a = c" using assms(1,3) by simp
  then show ?thesis using False by (simp add: min_def)
qed

lemma Resize_nonempty_raw:
  assumes "ring_inv r" "0 < count r" "0 \<le> n" "count r \<noteq> n"
  shows "\<exists>r'. Resize z r n = (Inr (), r') \<and> head r' = 0 \<and> tail r' = count r' \<and>
     count r' = min (count r) n \<and> length (buf r') = nat n \<and>
     (\<forall>i < nat (count r'). buf r' ! i = lg r (int i))"
proof -
  have l: "0 < buf_len r" using assms by (auto simp: ring_inv_def split: if_splits)
  note p = ring_inv_pos[OF assms(1) l]
  define L where "L = length (buf r)"
  define h where "h = nat (head r)"
  define m where "m = nat n"
  have iL: "buf_len r = int L" by (simp add: L_def buf_len_def)
  have ih: "head r = int h" using p by (simp add: h_def)
  have hL: "h < L" using p iL ih by simp
  have t: "tail r = (if head r + count r < buf_len r then head r + count r
                     else head r + count r - buf_len r)"
    using p wrap_slot[of "head r + count r" "buf_len r"] by simp
  have lgr: "lg r (int i) = buf r ! (if h + i < L then h + i else h + i - L)"
    if "int i < count r" for i
  proof -
    have "(head r + int i) mod buf_len r
        = (if head r + int i < buf_len r then head r + int i else head r + int i - buf_len r)"
      using p that by (intro wrap_slot) simp_all
    then show ?thesis unfolding lg_def iL ih
      by (simp add: nat_add_distrib nat_diff_distrib')
  qed
  have R0: "Resize z r n =
     (if tail r > head r then
          (case go_slice (buf r) (head r) (tail r) of
             Inl e \<Rightarrow> (Inl e, r)
           | Inr src \<Rightarrow>
               (case go_copy (replicate (nat n) z) 0 src of
                  (n, nb) \<Rightarrow> (Inr (), r\<lparr>count := n, head := 0, tail := n, buf := nb\<rparr>)))
        else
          (case go_slice (buf r) (head r) (buf_len r) of
             Inl e \<Rightarrow> (Inl e, r)
           | Inr src \<Rightarrow>
               (case go_copy (replicate (nat n) z) 0 src of
                  (n, nb) \<Rightarrow>
                    if n < buf_len r then
                      (case go_slice (buf r) 0 (tail r) of
                         Inl e \<Rightarrow> (Inl e, r)
                       | Inr src2 \<Rightarrow>
                           (case go_copy nb (nat n) src2 of
                              (n2, nb2) \<Rightarrow>
                                (Inr (), r\<lparr>count := n + n2, head := 0, tail := n + n2,
                                           buf := nb2\<rparr>)))
                    else (Inr (), r\<lparr>count := n, head := 0, tail := n, buf := nb\<rparr>))))"
    using assms(3,4) by (simp add: Resize_def)
  show ?thesis
  proof (cases "tail r > head r")
    case True
    then have hc: "head r + count r < buf_len r" and te: "tail r = head r + count r"
      using t p assms(2) by (auto split: if_splits)
    define c where "c = nat (count r)"
    define src where "src = take c (drop h (buf r))"
    have ic: "count r = int c" using p by (simp add: c_def)
    have hcL: "h + c < L" using hc iL ih ic by simp
    have gs: "go_slice (buf r) (head r) (tail r) = Inr src"
      using p te hc by (simp add: go_slice_def src_def c_def h_def buf_len_def)
    have ls: "length src = c" using hcL by (simp add: src_def L_def)
    obtain c1 nb where cp: "go_copy (replicate (nat n) z) 0 src = (c1, nb)" by (cases "go_copy (replicate (nat n) z) 0 src")
    have nl: "length (replicate (nat n) z) = m" by (simp add: m_def)
    note C = go_copy_props[OF _ cp, simplified] go_copy_nth(2,3)[OF _ cp, simplified]
    have c1: "nat c1 = min m c" using C(6) nl ls by simp
    define r' where "r' = r\<lparr>count := c1, head := 0, tail := c1, buf := nb\<rparr>"
    have rs: "Resize z r n = (Inr (), r')" using R0 True gs cp by (simp add: r'_def)
    have "buf r' ! i = lg r (int i)" if i: "i < nat (count r')" for i
    proof -
      have i': "i < min m c" using i c1 by (simp add: r'_def)
      then have "nb ! i = src ! i" using C(5)[of i] c1 by simp
      also have "\<dots> = buf r ! (h + i)" using i' hcL by (simp add: src_def L_def)
      also have "\<dots> = lg r (int i)" using lgr[of i] i' ic hcL by simp
      finally show ?thesis by (simp add: r'_def)
    qed
    moreover have "count r' = min (count r) n"
      using c1 C(1) p(6) assms(3) int_min_nat[of c1 n "count r"] by (simp add: r'_def m_def c_def)
    moreover have "length (buf r') = nat n" using C(3) nl by (simp add: r'_def m_def)
    ultimately show ?thesis using rs by (simp add: r'_def)
  next
    case False
    then have hc: "buf_len r \<le> head r + count r" and te: "tail r = head r + count r - buf_len r"
      using t p assms(2) by (auto split: if_splits)
    define tl where "tl = nat (tail r)"
    define src where "src = drop h (buf r)"
    define src2 where "src2 = take tl (buf r)"
    have it: "tail r = int tl" using p by (simp add: tl_def)
    have "int tl < int L" using p(4) unfolding iL it .
    then have tL: "tl \<le> L" by simp
    have cnt: "count r = int (L - h + tl)" using te iL ih it hL by simp
    have gs: "go_slice (buf r) (head r) (buf_len r) = Inr src"
      using p by (simp add: go_slice_def src_def h_def buf_len_def)
    have gs2: "go_slice (buf r) 0 (tail r) = Inr src2"
      using p by (simp add: go_slice_def src2_def tl_def buf_len_def less_imp_le)
    have ls: "length src = L - h" "length src2 = tl" using tL by (simp_all add: src_def src2_def L_def)
    obtain c1 nb where cp: "go_copy (replicate (nat n) z) 0 src = (c1, nb)" by (cases "go_copy (replicate (nat n) z) 0 src")
    have nl: "length (replicate (nat n) z) = m" by (simp add: m_def)
    note C = go_copy_props[OF _ cp, simplified] go_copy_nth(2,3)[OF _ cp, simplified]
    have c1: "nat c1 = min m (L - h)" using C(6) nl ls by simp
    have nbl: "length nb = m" using C(3) nl by simp
    have nb1: "nb ! i = buf r ! (h + i)" if "i < nat c1" for i
      using C(5)[of i] that c1 hL by (simp add: src_def L_def)
    show ?thesis
    proof (cases "c1 < buf_len r")
      case nlt: False
      then have "L \<le> nat c1" using iL C(1) by simp
      then have "L \<le> m" "L \<le> L - h" using c1 by simp_all
      then have e: "h = 0" "nat c1 = L" "L \<le> m" using c1 hL by (simp_all add: min_def) linarith+
      define r' where "r' = r\<lparr>count := c1, head := 0, tail := c1, buf := nb\<rparr>"
      have rs: "Resize z r n = (Inr (), r')" using R0 False gs cp nlt by (simp add: r'_def)
      have cL: "count r = int L" using cnt e p iL by simp
      have "buf r' ! i = lg r (int i)" if i: "i < nat (count r')" for i
      proof -
        have i': "i < L" using i e by (simp add: r'_def)
        then have "nb ! i = buf r ! (h + i)" using nb1[of i] e by simp
        also have "\<dots> = lg r (int i)" using lgr[of i] i' cL e by simp
        finally show ?thesis by (simp add: r'_def)
      qed
      moreover have "nat c1 = min (nat n) (nat (count r))" using e cL by (simp add: m_def)
      then have "count r' = min (count r) n"
        using C(1) p(6) assms(3) int_min_nat[of c1 n "count r"] by (simp add: r'_def)
      moreover have "length (buf r') = nat n" using nbl by (simp add: r'_def m_def)
      ultimately show ?thesis using rs by (simp add: r'_def)
    next
      case True
      obtain c2 nb2 where cp2: "go_copy nb (nat c1) src2 = (c2, nb2)"
        by (cases "go_copy nb (nat c1) src2")
      have off: "nat c1 \<le> length nb" using c1 nbl by simp
      note D = go_copy_props[OF off cp2] go_copy_nth[OF off cp2]
      have c2: "nat c2 = min (m - nat c1) tl" using D(7) nbl ls by simp
      define r' where "r' = r\<lparr>count := c1 + c2, head := 0, tail := c1 + c2, buf := nb2\<rparr>"
      have rs: "Resize z r n = (Inr (), r')"
        using R0 False gs cp True gs2 cp2 by (simp add: r'_def)
      have s: "nat (c1 + c2) = nat c1 + nat c2" using C(1) D(1) by (simp add: nat_add_distrib)
      have tot: "nat c1 + nat c2 = min m (L - h + tl)" using c1 c2 by linarith
      have "buf r' ! i = lg r (int i)" if i: "i < nat (count r')" for i
      proof -
        have i': "i < min m (L - h + tl)" using i s tot by (simp add: r'_def)
        have ic: "int i < count r" using i' cnt by simp
        show ?thesis
        proof (cases "i < nat c1")
          case True
          then have "nb2 ! i = nb ! i" by (rule D(5))
          also have "\<dots> = buf r ! (h + i)" using True by (rule nb1)
          also have "\<dots> = lg r (int i)"
          proof -
            have "h + i < L" using True c1 hL by linarith
            then show ?thesis using lgr[OF ic] by simp
          qed
          finally show ?thesis by (simp add: r'_def)
        next
          case ge: False
          then have "0 < nat c2" using tot i' by linarith
          then have f: "nat c1 = L - h" using c1 c2 by (simp add: min_def split: if_splits)
          have "nb2 ! i = src2 ! (i - nat c1)" using ge i s by (intro D(6)) (simp_all add: r'_def)
          also have "\<dots> = buf r ! (i - (L - h))"
          proof -
            have "i - nat c1 < tl" "nat c1 = L - h" using ge i' f by linarith+
            then show ?thesis by (simp add: src2_def)
          qed
          also have "\<dots> = lg r (int i)"
          proof -
            have "\<not> h + i < L" "i - (L - h) = h + i - L" using ge f hL by linarith+
            then show ?thesis using lgr[OF ic] by simp
          qed
          finally show ?thesis by (simp add: r'_def)
        qed
      qed
      moreover have "count r' = min (count r) n"
      proof -
        have "nat (count r) = L - h + tl" unfolding cnt by (rule nat_int)
        then have "nat (c1 + c2) = min (nat n) (nat (count r))" using s tot by (simp add: m_def)
        moreover have "0 \<le> c1 + c2" using C(1) D(1) by simp
        ultimately have "c1 + c2 = min (count r) n" using p(6) assms(3) by (intro int_min_nat)
        then show ?thesis by (simp add: r'_def)
      qed
      moreover have "length (buf r') = nat n" using D(3) nbl by (simp add: r'_def m_def)
      ultimately show ?thesis using rs by (simp add: r'_def)
    qed
  qed
qed

section \<open>The methods on every ring, and on a ring whose tail is a slot\<close>

text \<open>
  \<open>reach_inv\<close> holds in every state a ring can be in. \<open>ring_inv\<close> is \<open>reach_inv\<close>
  together with \<open>tail < capacity\<close> (lemma \<open>ring_inv_iff\<close>), which \<^verbatim>\<open>Resize\<close> can
  break. The lemmas of this section say what the methods do under each of the two.
\<close>

text \<open>
  Pushing onto a full ring of capacity at least 1. \<^verbatim>\<open>PushFront(v)\<close> returns and
  leaves \<^verbatim>\<open>Len()\<close> unchanged; the new logical sequence is \<open>v\<close> followed by the old
  one without its back element; \<open>head\<close> and \<open>tail\<close> both move to their \<^verbatim>\<open>prev\<close>
  slot, and \<open>tail\<close> is a slot afterwards. \<^verbatim>\<open>PushBack(v)\<close> is symmetric as long as
  \<open>tail\<close> is a slot of the storage: the new sequence is the old one without its front
  element, with \<open>v\<close> appended, and \<open>head\<close> and \<open>tail\<close> both advance to their
  \<^verbatim>\<open>next\<close> slot. When \<open>tail\<close> is the capacity, as \<^verbatim>\<open>Resize\<close> can leave it,
  \<^verbatim>\<open>PushBack\<close> panics on \<^verbatim>\<open>r.buf[r.tail]\<close> and the ring is as it was.
\<close>

lemma push_full_ring:
  assumes "reach_inv r" "Full r" "1 \<le> Cap (Some r)"
  shows "\<exists>rf.
     PushFront r v = (Inr (), rf) \<and> Len (Some rf) = Len (Some r) \<and>
     logical rf = Inr v # butlast (logical r) \<and>
     ring_prev r (head r) = Inr (head rf) \<and> ring_prev r (tail r) = Inr (tail rf) \<and>
     logical r = map Inr (contents r) \<and> ring_inv rf \<and>
     (tail r < Cap (Some r) \<longrightarrow>
        (\<exists>rb. PushBack r v = (Inr (), rb) \<and> Len (Some rb) = Len (Some r) \<and>
           logical rb = tl (logical r) @ [Inr v] \<and>
           ring_next r (head r) = Inr (head rb) \<and> ring_next r (tail r) = Inr (tail rb) \<and>
           ring_inv rb)) \<and>
     (\<not> tail r < Cap (Some r) \<longrightarrow> PushBack r v = (Inl RuntimeIndexOutOfRange, r))"
proof -
  have l: "0 < buf_len r" using assms(3) by (simp add: Cap_def)
  have full: "count r = buf_len r" using assms(2) by (simp add: Full_def)
  note p = reach_inv_pos[OF assms(1) l]
  note ri = assms(1)
  have cpos: "0 < nat (count r)" using l full by simp
  have hm: "tail r mod buf_len r = head r mod buf_len r" using p(5) full by simp
  obtain resf rf where f: "PushFront r v = (resf, rf)" by (cases "PushFront r v")
  note F = PushFront_lg[OF ri l f]
  have invf: "ring_inv rf"
  proof (rule ring_invI)
    show "0 < buf_len rf" using F(5) l by simp
    show "0 \<le> head rf" "head rf < buf_len rf" using F(2,5) l by simp_all
    show "0 \<le> count rf" "count rf \<le> buf_len rf" using F(4,5) full l by simp_all
    have "(tail r - 1) mod buf_len r = (head r - 1) mod buf_len r"
      using hm by (rule mod_pred_cong)
    then show "tail rf = (head rf + count rf) mod buf_len rf"
      using F(2-5) full by (simp add: mod_simps)
  qed
  have cf: "contents rf = v # butlast (contents r)"
  proof (rule contents_eqI)
    show "length (v # butlast (contents r)) = nat (count rf)" using F(4) full cpos by simp
    fix i assume i: "i < nat (count rf)"
    then have "lg rf (int i) = (if i = 0 then v else lg r (int i - 1))"
      using F(6)[of "int i"] F(4) full by simp
    moreover have "(v # butlast (contents r)) ! i = (if i = 0 then v else lg r (int i - 1))"
      using i F(4) full cpos
      by (cases i) (auto simp: nth_butlast contents_nth)
    ultimately show "lg rf (int i) = (v # butlast (contents r)) ! i" by simp
  qed
  have lf: "logical rf = Inr v # butlast (logical r)"
    by (simp add: logical_contents[OF ri] logical_contents[OF ring_inv_reach[OF invf]] cf map_butlast)
  have pf: "ring_prev r (head r) = Inr (head rf)" "ring_prev r (tail r) = Inr (tail rf)"
    using F p l full by (simp_all add: ring_prev_eq)
  have fr: "PushFront r v = (Inr (), rf)" "Len (Some rf) = Len (Some r)"
    using f F(1,4) full by (simp_all add: Len_def)
  have bk: "\<exists>rb. PushBack r v = (Inr (), rb) \<and> Len (Some rb) = Len (Some r) \<and>
           logical rb = tl (logical r) @ [Inr v] \<and>
           ring_next r (head r) = Inr (head rb) \<and> ring_next r (tail r) = Inr (tail rb) \<and>
           ring_inv rb" if t: "tail r < buf_len r"
  proof -
    obtain resb rb where b: "PushBack r v = (resb, rb)" by (cases "PushBack r v")
    note B = PushBack_full_lg[OF ri t full b]
    have invb: "ring_inv rb"
    proof (rule ring_invI)
      show "0 < buf_len rb" using B(5) l by simp
      show "0 \<le> head rb" "head rb < buf_len rb" using B(2,5) l by simp_all
      show "0 \<le> count rb" "count rb \<le> buf_len rb" using B(4,5) full l by simp_all
      have "(tail r + 1) mod buf_len r = (head r + 1) mod buf_len r"
        using hm by (rule mod_add1_cong)
      then show "tail rb = (head rb + count rb) mod buf_len rb"
        using B(2-5) full by (simp add: mod_simps)
    qed
    have cb: "contents rb = tl (contents r) @ [v]"
    proof (rule contents_eqI)
      show "length (tl (contents r) @ [v]) = nat (count rb)" using B(4) cpos by simp
      fix i assume i: "i < nat (count rb)"
      then have "lg rb (int i) = (if int i = buf_len r - 1 then v else lg r (int i + 1))"
        using B(6)[of "int i"] B(4) full by simp
      moreover have "(tl (contents r) @ [v]) ! i
          = (if int i = buf_len r - 1 then v else lg r (int i + 1))"
        using i B(4) full cpos
        by (auto simp: nth_append nth_tl contents_nth nat_eq_iff2 add.commute)
      ultimately show "lg rb (int i) = (tl (contents r) @ [v]) ! i" by simp
    qed
    have "logical rb = tl (logical r) @ [Inr v]"
      by (simp add: logical_contents[OF ri] logical_contents[OF ring_inv_reach[OF invb]] cb map_tl)
    moreover have "ring_next r (head r) = Inr (head rb)" "ring_next r (tail r) = Inr (tail rb)"
      using B p l by (simp_all add: ring_next_eq)
    ultimately show ?thesis using b B(1,4) invb by (simp add: Len_def)
  qed
  have nbk: "PushBack r v = (Inl RuntimeIndexOutOfRange, r)" if "\<not> tail r < buf_len r"
    using that by (intro PushBack_fail) (simp add: in_buf_def)
  have c: "Cap (Some r) = buf_len r" by (simp add: Cap_def)
  show ?thesis
    unfolding c using fr lf pf logical_contents[OF ri] invf bk nbk by blast
qed

lemma push_full_ring_example:
  "reach_inv ex3_full \<and> Full ex3_full \<and> 1 \<le> Cap (Some ex3_full) \<and>
   tail ex3_full < Cap (Some ex3_full) \<and>
   logical ex3_full = [Inr 10, Inr 20, Inr 30] \<and>
   (\<exists>rb rf.
     PushBack ex3_full 40 = (Inr (), rb) \<and> logical rb = [Inr 20, Inr 30, Inr 40] \<and>
     PushFront ex3_full 40 = (Inr (), rf) \<and> logical rf = [Inr 40, Inr 10, Inr 20])"
proof -
  have h: "reach_inv ex3_full" by (simp add: ex3_full_def reach_inv_def buf_len_def)
  have f: "Full ex3_full" by (simp add: ex3_full_def Full_def buf_len_def)
  have c: "1 \<le> Cap (Some ex3_full)" by (simp add: ex3_full_def Cap_def buf_len_def)
  have t: "tail ex3_full < Cap (Some ex3_full)" by (simp add: ex3_full_def Cap_def buf_len_def)
  have lgc: "logical ex3_full = [Inr 10, Inr 20, Inr 30]"
    by (simp add: ex3_full_def logical_def op_defs numeral_eq_Suc)
  from push_full_ring[OF h f c, of 40] t obtain rf rb where
    "PushFront ex3_full 40 = (Inr (), rf)" "logical rf = Inr 40 # butlast (logical ex3_full)"
    "PushBack ex3_full 40 = (Inr (), rb)" "logical rb = tl (logical ex3_full) @ [Inr 40]"
    by blast
  then show ?thesis using h f c t lgc by simp
qed

text \<open>
  \<^verbatim>\<open>Rotate\<close> on a ring whose \<open>tail\<close> is a slot (\<open>ring_inv\<close>), for every integer \<open>n\<close>:
  \<^verbatim>\<open>Rotate(n)\<close> returns, \<^verbatim>\<open>Len()\<close> and \<^verbatim>\<open>Cap()\<close> are unchanged, and for every valid
  index \<open>i\<close>, \<^verbatim>\<open>At(i)\<close> afterwards is \<^verbatim>\<open>At((i + n) mod Len())\<close> before, the remainder
  taken in \<open>[0, Len())\<close>. It changes nothing when \<^verbatim>\<open>Len() \<le> 1\<close> and when \<open>n\<close> is a
  multiple of \<^verbatim>\<open>Len()\<close>. For \<^verbatim>\<open>Len() > 1\<close> it does what \<^verbatim>\<open>Rotate\<close> of the truncated
  remainder of \<open>n\<close> by \<open>count\<close> does; that remainder is strictly between \<open>-count\<close> and
  \<open>count\<close>, and when it is 0 nothing changes. On a full ring \<^verbatim>\<open>Rotate(Cap() + 1)\<close> is
  \<^verbatim>\<open>Rotate(1)\<close>. On a nil ring \<^verbatim>\<open>Rotate\<close> returns and the ring stays nil.
\<close>

lemma Rotate_shifts:
  assumes "ring_inv r"
  shows "\<exists>r'. Rotate z (Some r) n = (Inr (), Some r') \<and>
     Len (Some r') = Len (Some r) \<and> Cap (Some r') = Cap (Some r) \<and>
     (\<forall>i. 0 \<le> i \<and> i < Len (Some r) \<longrightarrow>
        At (Some r') i = At (Some r) ((i + n) mod Len (Some r)) \<and> \<not> isl (At (Some r') i)) \<and>
     (Len (Some r) \<le> 1 \<longrightarrow> r' = r) \<and>
     (Len (Some r) dvd n \<longrightarrow> r' = r) \<and>
     (1 < Len (Some r) \<longrightarrow>
        Rotate z (Some r) n = Rotate z (Some r) (go_rem n (Len (Some r))) \<and>
        - Len (Some r) < go_rem n (Len (Some r)) \<and> go_rem n (Len (Some r)) < Len (Some r) \<and>
        (go_rem n (Len (Some r)) = 0 \<longrightarrow> r' = r)) \<and>
     (Full r \<longrightarrow> Rotate z (Some r) (Cap (Some r) + 1) = Rotate z (Some r) 1) \<and>
     Rotate z None n = (Inr (), None)"
proof -
  let ?c = "count r"
  have ri: "reach_inv r" using assms by (rule ring_inv_reach)
  from Rotate_ok[OF assms, of z n] obtain r' where r':
    "Rotate z (Some r) n = (Inr (), Some r')" "ring_inv r'" "count r' = ?c"
    "buf_len r' = buf_len r"
    "\<And>i. 0 \<le> i \<Longrightarrow> i < ?c \<Longrightarrow> lg r' i = lg r ((i + n) mod ?c)"
    by blast
  have ri': "reach_inv r'" using r'(2) by (rule ring_inv_reach)
  have at: "At (Some r') i = At (Some r) ((i + n) mod ?c) \<and> \<not> isl (At (Some r') i)"
    if i: "0 \<le> i" "i < ?c" for i
  proof -
    have c: "0 < ?c" using i by simp
    have "At (Some r') i = Inr (lg r' i)" using At_lg[OF ri', of i] i r'(3) by simp
    moreover have "At (Some r) ((i + n) mod ?c) = Inr (lg r ((i + n) mod ?c))"
      using c by (intro At_lg[OF ri]) simp_all
    ultimately show ?thesis using r'(5)[OF i] by simp
  qed
  have small: "r' = r" if "?c \<le> 1"
    using Rotate_small[of "Some r" z n] that r'(1) by (simp add: Len_def)
  have zero: "r' = r" if "1 < ?c" "go_rem n ?c = 0"
    using Rotate_zero[OF that, of z] r'(1) by simp
  have dv: "r' = r" if d: "?c dvd n"
  proof (cases "?c \<le> 1")
    case True then show ?thesis by (rule small)
  next
    case False
    then have "0 < ?c" "1 < ?c" by simp_all
    then show ?thesis using zero go_rem_zero_iff[of ?c n] d by simp
  qed
  have red: "Rotate z (Some r) n = Rotate z (Some r) (go_rem n ?c) \<and>
        - ?c < go_rem n ?c \<and> go_rem n ?c < ?c \<and> (go_rem n ?c = 0 \<longrightarrow> r' = r)"
    if "1 < ?c"
    using Rotate_reduced[OF that, of z n] go_rem_bounds[of ?c n] zero that by simp
  have full: "Rotate z (Some r) (buf_len r + 1) = Rotate z (Some r) 1" if f: "?c = buf_len r"
  proof (cases "?c \<le> 1")
    case True
    then show ?thesis using Rotate_small[of "Some r" z] by (simp add: Len_def)
  next
    case False
    then have "go_rem (?c + 1) ?c = go_rem 1 ?c" by (simp add: go_rem_nonneg)
    then show ?thesis using f by (simp add: Rotate_def rotate_ring_def)
  qed
  have nil: "Rotate z None n = (Inr (), None)" by (simp add: Rotate_def Len_def)
  have lc: "Len (Some r) = ?c" "Cap (Some r) = buf_len r" by (simp_all add: Len_def Cap_def)
  have L: "Len (Some r') = Len (Some r)" "Cap (Some r') = Cap (Some r)"
    using r'(3,4) by (simp_all add: Len_def Cap_def)
  have 1: "\<forall>i. 0 \<le> i \<and> i < Len (Some r) \<longrightarrow>
        At (Some r') i = At (Some r) ((i + n) mod Len (Some r)) \<and> \<not> isl (At (Some r') i)"
    unfolding lc using at by blast
  have 2: "Len (Some r) \<le> 1 \<longrightarrow> r' = r" unfolding lc using small by blast
  have 3: "Len (Some r) dvd n \<longrightarrow> r' = r" unfolding lc using dv by blast
  have 4: "1 < Len (Some r) \<longrightarrow>
        Rotate z (Some r) n = Rotate z (Some r) (go_rem n (Len (Some r))) \<and>
        - Len (Some r) < go_rem n (Len (Some r)) \<and> go_rem n (Len (Some r)) < Len (Some r) \<and>
        (go_rem n (Len (Some r)) = 0 \<longrightarrow> r' = r)"
    unfolding lc using red by blast
  have 5: "Full r \<longrightarrow> Rotate z (Some r) (Cap (Some r) + 1) = Rotate z (Some r) 1"
    unfolding lc Full_def using full by blast
  show ?thesis using r'(1) L 1 2 3 4 5 nil by blast
qed

lemma Rotate_shifts_example:
  "ring_inv ex5_3 \<and> ring_inv ex3_full \<and> ring_inv ex4_8 \<and>
   (\<exists>r'. Rotate 0 (Some ex5_3) (- 4) = (Inr (), Some r') \<and>
      Len (Some r') = 3 \<and> Cap (Some r') = 5 \<and>
      At (Some r') 0 = At (Some ex5_3) 2 \<and> At (Some r') 1 = At (Some ex5_3) 0 \<and>
      At (Some r') 2 = At (Some ex5_3) 1 \<and> \<not> isl (At (Some r') 0) \<and>
      go_rem (- 4) (Len (Some ex5_3)) = - 1 \<and>
      Rotate 0 (Some ex5_3) (- 4) = Rotate 0 (Some ex5_3) (- 1)) \<and>
   Full ex3_full \<and>
   Rotate 0 (Some ex3_full) (Cap (Some ex3_full) + 1) = Rotate 0 (Some ex3_full) 1 \<and>
   Len (Some ex3_full) dvd 6 \<and> Rotate 0 (Some ex3_full) 6 = (Inr (), Some ex3_full) \<and>
   Len (Some ex4_8) \<le> 1 \<and> Rotate 0 (Some ex4_8) 5 = (Inr (), Some ex4_8)"
proof -
  have h5: "ring_inv ex5_3" by (simp add: ex5_3_def ring_inv_def buf_len_def)
  have h3: "ring_inv ex3_full" by (simp add: ex3_full_def ring_inv_def buf_len_def)
  have h4: "ring_inv ex4_8" by (simp add: ex4_8_def ring_inv_def buf_len_def)
  have l5: "Len (Some ex5_3) = 3" "Cap (Some ex5_3) = 5"
    by (simp_all add: ex5_3_def Len_def Cap_def buf_len_def)
  have l3: "Len (Some ex3_full) = 3" "Cap (Some ex3_full) = 3" "Full ex3_full"
    by (simp_all add: ex3_full_def Len_def Cap_def Full_def buf_len_def)
  have l4: "Len (Some ex4_8) = 1" by (simp add: ex4_8_def Len_def)
  have g: "go_rem (- 4) 3 = - 1" by (simp add: go_rem_def)
  from Rotate_shifts[OF h5, of 0 "- 4"] obtain r' where r0:
    "Rotate 0 (Some ex5_3) (- 4) = (Inr (), Some r')"
    "Len (Some r') = Len (Some ex5_3)" "Cap (Some r') = Cap (Some ex5_3)"
    "\<forall>i. 0 \<le> i \<and> i < Len (Some ex5_3) \<longrightarrow>
       At (Some r') i = At (Some ex5_3) ((i + - 4) mod Len (Some ex5_3)) \<and>
       \<not> isl (At (Some r') i)"
    "1 < Len (Some ex5_3) \<longrightarrow>
        Rotate 0 (Some ex5_3) (- 4) = Rotate 0 (Some ex5_3) (go_rem (- 4) (Len (Some ex5_3))) \<and>
        - Len (Some ex5_3) < go_rem (- 4) (Len (Some ex5_3)) \<and>
        go_rem (- 4) (Len (Some ex5_3)) < Len (Some ex5_3) \<and>
        (go_rem (- 4) (Len (Some ex5_3)) = 0 \<longrightarrow> r' = ex5_3)"
    by blast
  have r': "Rotate 0 (Some ex5_3) (- 4) = (Inr (), Some r')"
    "Len (Some r') = 3" "Cap (Some r') = 5"
    "Rotate 0 (Some ex5_3) (- 4) = Rotate 0 (Some ex5_3) (- 1)"
    using r0(1,2,3,5) unfolding l5 g by simp_all
  have r4: "At (Some r') i = At (Some ex5_3) ((i + - 4) mod 3) \<and> \<not> isl (At (Some r') i)"
    if "0 \<le> i" "i < 3" for i
    using r0(4) that unfolding l5 by blast
  have m: "((0::int) + - 4) mod 3 = 2" "((1::int) + - 4) mod 3 = 0" "((2::int) + - 4) mod 3 = 1"
    by simp_all
  have a: "At (Some r') 0 = At (Some ex5_3) 2" "At (Some r') 1 = At (Some ex5_3) 0"
    "At (Some r') 2 = At (Some ex5_3) 1" "\<not> isl (At (Some r') 0)"
    using r4[of 0, unfolded m] r4[of 1, unfolded m] r4[of 2, unfolded m] by auto
  have b: "Rotate 0 (Some ex3_full) (Cap (Some ex3_full) + 1) = Rotate 0 (Some ex3_full) 1"
    using Rotate_shifts[OF h3, of 0 0] l3(3) by blast
  have "(3::int) dvd 6" by simp
  then have c: "Rotate 0 (Some ex3_full) 6 = (Inr (), Some ex3_full)"
    using Rotate_shifts[OF h3, of 0 6] unfolding l3 by blast
  have d: "Rotate 0 (Some ex4_8) 5 = (Inr (), Some ex4_8)"
    using Rotate_shifts[OF h4, of 0 5] unfolding l4 by fastforce
  have g': "go_rem (- 4) (Len (Some ex5_3)) = - 1" unfolding l5 by (rule g)
  have e: "Len (Some ex3_full) dvd 6" "Len (Some ex4_8) \<le> 1" unfolding l3 l4 by simp_all
  show ?thesis
    by (intro conjI exI[of _ r']) (fact h5 h3 h4 r' a b c d l3 g' e)+
qed

lemma fails_index:
  assumes "reach_inv r"
  shows "isl (At (Some r) i) = (\<not> (0 \<le> i \<and> i < count r))"
    "isl (fst (Set (Some r) i v)) = (\<not> (0 \<le> i \<and> i < count r))"
    "isl (fst (Remove z r i)) = (\<not> (0 \<le> i \<and> i < count r))"
    "isl (fst (Set (Some r) i v)) \<Longrightarrow> snd (Set (Some r) i v) = Some r"
    "isl (fst (Remove z r i)) \<Longrightarrow> snd (Remove z r i) = r"
proof -
  note ri = assms
  show a: "isl (At (Some r) i) = (\<not> (0 \<le> i \<and> i < count r))"
    using At_lg[OF ri, of i] At_fail[of i r] by (cases "0 \<le> i \<and> i < count r") auto
  obtain res ro' where s: "Set (Some r) i v = (res, ro')" by (cases "Set (Some r) i v")
  show b: "isl (fst (Set (Some r) i v)) = (\<not> (0 \<le> i \<and> i < count r))"
    using Set_lg[OF ri _ _ s] Set_fail[of i r v] s by (cases "0 \<le> i \<and> i < count r") auto
  show c: "isl (fst (Remove z r i)) = (\<not> (0 \<le> i \<and> i < count r))"
    using Remove_ok[OF ri, of i z] Remove_fail[of i r z] by (cases "0 \<le> i \<and> i < count r") auto
  show "isl (fst (Set (Some r) i v)) \<Longrightarrow> snd (Set (Some r) i v) = Some r"
    using b Set_fail[of i r v] by auto
  show "isl (fst (Remove z r i)) \<Longrightarrow> snd (Remove z r i) = r"
    using c Remove_fail[of i r z] by auto
qed

lemma fails_Insert:
  assumes "reach_inv r"
  shows "isl (fst (Insert r i v)) = (\<not> (0 \<le> i \<and> i \<le> count r) \<or> count r = buf_len r \<or>
           (\<not> i * 2 < count r \<and> tail r = buf_len r))"
    "isl (fst (Insert r i v)) \<Longrightarrow> snd (Insert r i v) = r"
proof -
  have c: "count r \<le> buf_len r" using assms by (simp add: reach_inv_def)
  obtain res r' where ins: "Insert r i v = (res, r')" by (cases "Insert r i v")
  consider "\<not> (0 \<le> i \<and> i \<le> count r)"
    | "0 \<le> i" "i \<le> count r" "count r = buf_len r"
    | "0 \<le> i" "i \<le> count r" "count r < buf_len r" "i * 2 < count r"
    | "0 \<le> i" "i \<le> count r" "count r < buf_len r" "\<not> i * 2 < count r" "tail r < buf_len r"
    | "0 \<le> i" "i \<le> count r" "count r < buf_len r" "\<not> i * 2 < count r" "\<not> tail r < buf_len r"
    using c by linarith
  then have "(isl (fst (Insert r i v)) = (\<not> (0 \<le> i \<and> i \<le> count r) \<or> count r = buf_len r \<or>
           (\<not> i * 2 < count r \<and> tail r = buf_len r))) \<and>
      (isl (fst (Insert r i v)) \<longrightarrow> snd (Insert r i v) = r)"
  proof cases
    case 1
    then show ?thesis using Insert_fail(1)[of i r v] by auto
  next
    case 2
    then show ?thesis using Insert_fail(2)[of i r v] by simp
  next
    case 3
    have "res = Inr ()" using Insert_front_lg(1)[OF assms 3(3,1,2,4) ins] .
    then show ?thesis using ins 3 by simp
  next
    case 4
    have "res = Inr ()" using Insert_back_lg(1)[OF assms 4(3,1,2,4,5) ins] .
    then show ?thesis using ins 4 by simp
  next
    case 5
    have l: "0 < buf_len r" using 5 assms by (auto simp: reach_inv_def split: if_splits)
    have t: "tail r = buf_len r" using reach_inv_pos(4)[OF assms l] 5(5) by simp
    have "\<not> in_buf r (tail r)" using 5(5) by (simp add: in_buf_def)
    then have "Insert r i v = (Inl RuntimeIndexOutOfRange, r)"
      using 5 by (intro Insert_back_fail) simp_all
    then show ?thesis using 5 t by simp
  qed
  then show "isl (fst (Insert r i v)) = (\<not> (0 \<le> i \<and> i \<le> count r) \<or> count r = buf_len r \<or>
           (\<not> i * 2 < count r \<and> tail r = buf_len r))"
    "isl (fst (Insert r i v)) \<Longrightarrow> snd (Insert r i v) = r"
    by blast+
qed

lemma fails_empty:
  assumes "reach_inv r"
  shows "isl (Front r) = (count r = 0)" "isl (Back r) = (count r = 0)"
    "isl (fst (PopFront z r)) = (count r = 0)" "isl (fst (PopBack z r)) = (count r = 0)"
    "isl (fst (PopFront z r)) \<Longrightarrow> snd (PopFront z r) = r"
    "isl (fst (PopBack z r)) \<Longrightarrow> snd (PopBack z r) = r"
proof -
  note ri = assms
  have c: "0 \<le> count r" using assms by (simp add: reach_inv_def)
  show "isl (Front r) = (count r = 0)"
    using Front_ok[OF ri] c by (cases "count r = 0") (simp_all add: Front_def)
  show "isl (Back r) = (count r = 0)"
    using Back_ok[OF ri] c by (cases "count r = 0") (simp_all add: Back_def)
  show a: "isl (fst (PopFront z r)) = (count r = 0)"
    using PopFront_ok[OF ri, of z] PopFront_fail[of r z] c by (cases "count r = 0") simp_all
  show b: "isl (fst (PopBack z r)) = (count r = 0)"
    using PopBack_ok(1)[OF ri, of z] PopBack_fail[of r z] c by (cases "count r = 0") simp_all
  show "isl (fst (PopFront z r)) \<Longrightarrow> snd (PopFront z r) = r"
    using a PopFront_fail[of r z] by simp
  show "isl (fst (PopBack z r)) \<Longrightarrow> snd (PopBack z r) = r"
    using b PopBack_fail[of r z] by simp
qed

text \<open>
  When the methods panic. \<^verbatim>\<open>At(i)\<close>, \<^verbatim>\<open>Set(i, v)\<close> and \<^verbatim>\<open>Remove(i)\<close> panic
  exactly when \<open>i\<close> is outside \<open>[0, count)\<close>; \<^verbatim>\<open>Front\<close>, \<^verbatim>\<open>Back\<close>, \<^verbatim>\<open>PopFront\<close>
  and \<^verbatim>\<open>PopBack\<close> panic exactly when \<open>count = 0\<close>. \<^verbatim>\<open>Insert(i, v)\<close> panics when
  \<open>i\<close> is outside \<open>[0, count]\<close>, when the ring is full, and in one more case: when
  \<open>tail\<close> is the capacity, as \<^verbatim>\<open>Resize\<close> can leave it, and \<open>i\<close> is in the back half,
  where \<^verbatim>\<open>Insert\<close> calls \<^verbatim>\<open>PushBack\<close>. Whenever one of the methods that assign to
  the ring panics, the ring is as it was before the call.
\<close>

lemma failures_of_methods:
  assumes "reach_inv r"
  shows
    "(isl (At (Some r) i) \<longleftrightarrow> \<not> (0 \<le> i \<and> i < Len (Some r))) \<and>
     (isl (fst (Set (Some r) i v)) \<longleftrightarrow> \<not> (0 \<le> i \<and> i < Len (Some r))) \<and>
     (isl (fst (Remove z r i)) \<longleftrightarrow> \<not> (0 \<le> i \<and> i < Len (Some r))) \<and>
     (isl (fst (Insert r i v)) \<longleftrightarrow>
        \<not> (0 \<le> i \<and> i \<le> Len (Some r)) \<or> Len (Some r) = Cap (Some r) \<or>
        (\<not> i * 2 < Len (Some r) \<and> tail r = Cap (Some r))) \<and>
     (isl (Front r) \<longleftrightarrow> Len (Some r) = 0) \<and>
     (isl (Back r) \<longleftrightarrow> Len (Some r) = 0) \<and>
     (isl (fst (PopFront z r)) \<longleftrightarrow> Len (Some r) = 0) \<and>
     (isl (fst (PopBack z r)) \<longleftrightarrow> Len (Some r) = 0) \<and>
     (isl (fst (Set (Some r) i v)) \<longrightarrow> snd (Set (Some r) i v) = Some r) \<and>
     (isl (fst (Remove z r i)) \<longrightarrow> snd (Remove z r i) = r) \<and>
     (isl (fst (Insert r i v)) \<longrightarrow> snd (Insert r i v) = r) \<and>
     (isl (fst (PopFront z r)) \<longrightarrow> snd (PopFront z r) = r) \<and>
     (isl (fst (PopBack z r)) \<longrightarrow> snd (PopBack z r) = r)"
  using fails_index[OF assms] fails_Insert[OF assms] fails_empty[OF assms]
  by (simp add: Len_def Cap_def)

lemma failures_of_methods_example:
  "reach_inv ex4_empty \<and>
   isl (At (Some ex4_empty) 1) \<and>
   isl (fst (Set (Some ex4_empty) 1 9)) \<and> snd (Set (Some ex4_empty) 1 9) = Some ex4_empty \<and>
   isl (fst (Remove 0 ex4_empty 1)) \<and> snd (Remove 0 ex4_empty 1) = ex4_empty \<and>
   isl (fst (Insert ex4_empty 1 9)) \<and> snd (Insert ex4_empty 1 9) = ex4_empty \<and>
   isl (Front ex4_empty) \<and> isl (Back ex4_empty) \<and>
   isl (fst (PopFront 0 ex4_empty)) \<and> snd (PopFront 0 ex4_empty) = ex4_empty \<and>
   isl (fst (PopBack 0 ex4_empty)) \<and> snd (PopBack 0 ex4_empty) = ex4_empty"
proof -
  have h: "reach_inv ex4_empty" by (simp add: ex4_empty_def reach_inv_def buf_len_def)
  have c: "Len (Some ex4_empty) = 0" by (simp add: ex4_empty_def Len_def)
  show ?thesis using h failures_of_methods[OF h, of 1 9 0] by (simp add: c)
qed

text \<open>
  \<^verbatim>\<open>Insert\<close> and \<^verbatim>\<open>Remove\<close> on a ring whose \<open>tail\<close> is a slot (\<open>ring_inv\<close>) and
  that is not full, for every position \<open>0 \<le> at \<le> Len()\<close> and every value \<open>v\<close>:
  \<^verbatim>\<open>Insert(at, v)\<close> returns, and the logical sequence is then the old elements before
  \<open>at\<close>, then \<open>v\<close>, then the old elements from \<open>at\<close> on; \<^verbatim>\<open>Remove(at)\<close> on the
  result returns \<open>v\<close> and leaves the logical sequence and the length the ring had
  before the insertion.
\<close>

lemma Insert_Remove_inverse:
  assumes "ring_inv r" "\<not> Full r" "0 \<le> at" "at \<le> Len (Some r)"
  shows "\<exists>r1 r2.
     Insert r at v = (Inr (), r1) \<and>
     logical r1 = take (nat at) (logical r) @ Inr v # drop (nat at) (logical r) \<and>
     Remove z r1 at = (Inr v, r2) \<and>
     logical r2 = logical r \<and> Len (Some r2) = Len (Some r) \<and>
     logical r = map Inr (contents r)"
proof -
  have c: "count r < buf_len r" "at \<le> count r"
    using assms by (auto simp: Full_def Len_def ring_inv_def)
  have ri: "reach_inv r" using assms(1) by (rule ring_inv_reach)
  from Insert_ok[OF assms(1) c(1) assms(3) c(2), of v] obtain r1 where r1:
    "Insert r at v = (Inr (), r1)" "ring_inv r1" "count r1 = count r + 1" "buf_len r1 = buf_len r"
    "\<And>i. 0 \<le> i \<Longrightarrow> i \<le> count r \<Longrightarrow>
        lg r1 i = (if i < at then lg r i else if i = at then v else lg r (i - 1))"
    by blast
  have ri1: "reach_inv r1" using r1(2) by (rule ring_inv_reach)
  have at1: "at < count r1" using c r1(3) by simp
  from Remove_ok[OF ri1 assms(3) at1, of z] obtain r2 where r2:
    "Remove z r1 at = (Inr (lg r1 at), r2)" "reach_inv r2" "count r2 = count r1 - 1"
    "\<And>i. 0 \<le> i \<Longrightarrow> i < count r1 - 1 \<Longrightarrow> lg r2 i = (if i < at then lg r1 i else lg r1 (i + 1))"
    by blast
  have v: "lg r1 at = v" using r1(5)[of at] assms(3) c by simp
  have c1: "contents r1 = take (nat at) (contents r) @ v # drop (nat at) (contents r)"
  proof (rule contents_eqI)
    show "length (take (nat at) (contents r) @ v # drop (nat at) (contents r)) = nat (count r1)"
      using r1(3) c assms(3) by simp
    fix i assume i: "i < nat (count r1)"
    have "lg r1 (int i) = (if int i < at then lg r (int i) else if int i = at then v
        else lg r (int i - 1))"
      using r1(5)[of "int i"] i r1(3) by simp
    moreover have "(take (nat at) (contents r) @ v # drop (nat at) (contents r)) ! i
        = (if int i < at then lg r (int i) else if int i = at then v else lg r (int i - 1))"
    proof -
      have n: "nat at \<le> length (contents r)" "i \<le> length (contents r)"
        using c i r1(3) by simp_all
      consider "int i < at" | "int i = at" | "at < int i" by linarith
      then show ?thesis
      proof cases
        case 1
        then have "i < nat at" "i < nat (count r)" using c by linarith+
        then show ?thesis using 1 nth_insert_lt[OF n(1), of i v] by (simp add: contents_nth)
      next
        case 2
        then have "i = nat at" by simp
        then show ?thesis using 2 nth_insert_eq[OF n(1), of v] by simp
      next
        case 3
        then have "nat at < i" "i - 1 < nat (count r)" "int (i - 1) = int i - 1"
          using assms(3) i r1(3) by simp_all
        then show ?thesis using 3 nth_insert_gt[OF n(1) _ n(2), of v] by (simp add: contents_nth)
      qed
    qed
    ultimately show "lg r1 (int i)
        = (take (nat at) (contents r) @ v # drop (nat at) (contents r)) ! i"
      by simp
  qed
  have c2: "contents r2 = contents r"
  proof (rule contents_eqI)
    show "length (contents r) = nat (count r2)" using r2(3) r1(3) by simp
    fix i assume i: "i < nat (count r2)"
    then have "lg r2 (int i) = (if int i < at then lg r1 (int i) else lg r1 (int i + 1))"
      using r2(4)[of "int i"] r2(3) by simp
    also have "\<dots> = lg r (int i)"
      using r1(5)[of "int i"] r1(5)[of "int i + 1"] i r2(3) r1(3) by simp
    finally show "lg r2 (int i) = contents r ! i" using i r2(3) r1(3) by (simp add: contents_nth)
  qed
  have "logical r1 = take (nat at) (logical r) @ Inr v # drop (nat at) (logical r)"
    by (simp add: logical_contents[OF ri] logical_contents[OF ri1] c1 take_map drop_map)
  moreover have "logical r2 = logical r"
    by (simp add: logical_contents[OF ri] logical_contents[OF r2(2)] c2)
  ultimately show ?thesis
    using r1(1) r2(1) v r2(3) r1(3) logical_contents[OF ri] by (simp add: Len_def)
qed

lemma Insert_Remove_inverse_example:
  "ring_inv ex5_3 \<and> \<not> Full ex5_3 \<and> 0 \<le> (1::int) \<and> 1 \<le> Len (Some ex5_3) \<and>
   logical ex5_3 = [Inr 10, Inr 20, Inr 30] \<and>
   (\<exists>r1 r2.
     Insert ex5_3 1 15 = (Inr (), r1) \<and>
     logical r1 = take (nat 1) (logical ex5_3) @ Inr 15 # drop (nat 1) (logical ex5_3) \<and>
     Remove 0 r1 1 = (Inr 15, r2) \<and>
     logical r2 = logical ex5_3 \<and> Len (Some r2) = Len (Some ex5_3) \<and>
     logical ex5_3 = map Inr (contents ex5_3))"
proof -
  have h: "ring_inv ex5_3" by (simp add: ex5_3_def ring_inv_def buf_len_def)
  have f: "\<not> Full ex5_3" by (simp add: ex5_3_def Full_def buf_len_def)
  have c: "1 \<le> Len (Some ex5_3)" by (simp add: ex5_3_def Len_def)
  have lgc: "logical ex5_3 = [Inr 10, Inr 20, Inr 30]"
    by (simp add: ex5_3_def logical_def op_defs numeral_eq_Suc)
  show ?thesis using h f c lgc Insert_Remove_inverse[OF h f _ c, of 15 0] by simp
qed

section \<open>The claims\<close>

text \<open>
  C1, at a failing input. After \<^verbatim>\<open>New(4)\<close>, \<^verbatim>\<open>PushBack(7)\<close>, \<^verbatim>\<open>PushBack(8)\<close>,
  \<^verbatim>\<open>PopFront()\<close> the ring holds the one element 8 at logical index 0, in storage slot
  1. \<^verbatim>\<open>At(0)\<close> returns 8 and \<^verbatim>\<open>Index\<close> finds it at 0, but \<^verbatim>\<open>RIndex\<close> returns -1:
  it reduces \<open>head + i\<close> modulo \<^verbatim>\<open>r.Len()\<close>, not modulo \<^verbatim>\<open>len(r.buf)\<close>, and looks at
  slot 0.
\<close>

theorem RIndex_partial_ring:
  "New 0 4 = Inr ex4_empty \<and>
   PushBack ex4_empty 7 = (Inr (), ex4_7) \<and>
   PushBack ex4_7 8 = (Inr (), ex4_78) \<and>
   PopFront 0 ex4_78 = (Inr 7, ex4_8) \<and>
   Len (Some ex4_8) = 1 \<and>
   At (Some ex4_8) 0 = Inr 8 \<and>
   Index (Some ex4_8) (\<lambda>x. x = 8) = Inr 0 \<and>
   RIndex (Some ex4_8) (\<lambda>x. x = 8) = Inr (- 1)"
  by (simp add: ex_defs op_defs numeral_eq_Suc)

text \<open>
  C2, at a failing input. \<^verbatim>\<open>Resize(2)\<close> of the empty ring of capacity 4 takes the
  branch for \<open>tail \<le> head\<close>, copies two slots of the empty storage and stores 2 in
  \<open>count\<close>: the ring has length 2, not \<open>min 0 2 = 0\<close>, and \<^verbatim>\<open>At\<close> returns two zero
  values that were never pushed. Its \<open>tail\<close> is 2, the capacity.
\<close>

theorem Resize_empty_ring:
  "New 0 4 = Inr ex4_empty \<and>
   Len (Some ex4_empty) = 0 \<and>
   Resize 0 ex4_empty 2 = (Inr (), ex2_phantom) \<and>
   Len (Some ex2_phantom) = 2 \<and>
   Cap (Some ex2_phantom) = 2 \<and>
   tail ex2_phantom = 2 \<and>
   logical ex2_phantom = [Inr 0, Inr 0]"
  by (simp add: ex_defs op_defs Resize_def go_slice_def go_copy_def logical_def numeral_eq_Suc)

text \<open>
  On a ring that holds at least one element and satisfies the invariants of the data
  model, \<^verbatim>\<open>Resize(n)\<close> with \<open>n\<close> different from the length does what its comment says:
  the length becomes the smaller of the old length and \<open>n\<close>, the capacity becomes
  \<open>n\<close>, and the logical sequence is the first \<open>n\<close> elements of the old one.
\<close>

lemma Resize_nonempty:
  assumes "ring_inv r" "0 < Len (Some r)" "0 \<le> n" "Len (Some r) \<noteq> n"
  shows "\<exists>r'. Resize z r n = (Inr (), r') \<and>
     Len (Some r') = min (Len (Some r)) n \<and> Cap (Some r') = n \<and>
     head r' = 0 \<and> tail r' = count r' \<and>
     logical r' = take (nat n) (logical r) \<and> logical r = map Inr (contents r)"
proof -
  have c: "0 < count r" "count r \<noteq> n" using assms(2,4) by (simp_all add: Len_def)
  from Resize_nonempty_raw[OF assms(1) c(1) assms(3) c(2), of z] obtain r' where r':
    "Resize z r n = (Inr (), r')" "head r' = 0" "tail r' = count r'"
    "count r' = min (count r) n" "length (buf r') = nat n"
    "\<And>i. i < nat (count r') \<Longrightarrow> buf r' ! i = lg r (int i)"
    by blast
  have bl: "buf_len r' = n" using r'(5) assms(3) by (simp add: buf_len_def)
  have cn: "0 \<le> count r'" "count r' \<le> n" using r'(4) c(1) assms(3) by simp_all
  have ri': "reach_inv r'" using r'(2,3) bl cn by (simp add: reach_inv_def)
  have ri: "reach_inv r" using assms(1) by (rule ring_inv_reach)
  have "contents r' = take (nat n) (contents r)"
  proof (rule contents_eqI)
    show "length (take (nat n) (contents r)) = nat (count r')"
      using r'(4) c(1) assms(3) by (simp add: min_def)
    fix i assume i: "i < nat (count r')"
    then have "int i < n" "0 \<le> int i" using cn by simp_all
    then have "(head r' + int i) mod buf_len r' = int i" using r'(2) bl by simp
    then have "lg r' (int i) = buf r' ! i" by (simp add: lg_def)
    also have "\<dots> = lg r (int i)" using i by (rule r'(6))
    also have "\<dots> = take (nat n) (contents r) ! i"
      using i r'(4) by (simp add: contents_nth)
    finally show "lg r' (int i) = take (nat n) (contents r) ! i" .
  qed
  then have "logical r' = take (nat n) (logical r)"
    by (simp add: logical_contents[OF ri] logical_contents[OF ri'] take_map)
  then show ?thesis using r'(1-4) bl logical_contents[OF ri] by (simp add: Len_def Cap_def)
qed

text \<open>
  \<^verbatim>\<open>Resize\<close> stores the number of copied elements in \<open>tail\<close>. When the resized ring
  is full that number is the capacity, which is not a slot: the invariant
  \<open>tail < capacity\<close> is lost, and a \<^verbatim>\<open>PushBack\<close> or a forward \<^verbatim>\<open>Rotate\<close> on the
  resized ring indexes the storage out of range.
\<close>

lemma Resize_leaves_tail_at_capacity:
  "New 0 3 = Inr ex3_empty \<and>
   PushBack ex3_empty 1 = (Inr (), ex3_1) \<and>
   PushBack ex3_1 2 = (Inr (), ex3_12) \<and>
   PushBack ex3_12 3 = (Inr (), ex3_123) \<and>
   Resize 0 ex3_123 2 = (Inr (), ex2_resized) \<and>
   Full ex2_resized \<and> tail ex2_resized = Cap (Some ex2_resized) \<and>
   \<not> ring_inv ex2_resized \<and> reach_inv ex2_resized \<and>
   logical ex2_resized = [Inr 1, Inr 2] \<and>
   PushBack ex2_resized 9 = (Inl RuntimeIndexOutOfRange, ex2_resized) \<and>
   Rotate 0 (Some ex2_resized) 1 = (Inl RuntimeIndexOutOfRange, Some ex2_resized)"
  by (simp add: ex3_defs op_defs Resize_def go_slice_def go_copy_def logical_def
      ring_inv_def reach_inv_def Rotate_def rotate_ring_def numeral_eq_Suc)

text \<open>
  C3, at a failing input. After \<^verbatim>\<open>New(3)\<close>, three calls of \<^verbatim>\<open>PushBack\<close> and
  \<^verbatim>\<open>Resize(2)\<close> the ring is full, with capacity 2 and the logical sequence 1, 2;
  \<^verbatim>\<open>Resize\<close> has left \<open>tail = 2\<close>, which is not a slot. \<^verbatim>\<open>PushBack(3)\<close> on this
  full ring does not evict the front element and append 3: it panics on
  \<^verbatim>\<open>r.buf[r.tail]\<close>, and the ring is as it was. \<^verbatim>\<open>PushFront(3)\<close> on the same ring
  does what the claim says: the sequence becomes 3, 1.
\<close>

theorem PushBack_full_after_Resize:
  "New 0 3 = Inr ex3_empty \<and>
   PushBack ex3_empty 1 = (Inr (), ex3_1) \<and>
   PushBack ex3_1 2 = (Inr (), ex3_12) \<and>
   PushBack ex3_12 3 = (Inr (), ex3_123) \<and>
   Resize 0 ex3_123 2 = (Inr (), ex2_resized) \<and>
   Full ex2_resized \<and> Cap (Some ex2_resized) = 2 \<and> Len (Some ex2_resized) = 2 \<and>
   logical ex2_resized = [Inr 1, Inr 2] \<and>
   PushBack ex2_resized 3 = (Inl RuntimeIndexOutOfRange, ex2_resized) \<and>
   PushFront ex2_resized 3 = (Inr (), ex2_front3) \<and>
   logical ex2_front3 = [Inr 3, Inr 1]"
  by (simp add: ex2_defs op_defs Resize_def go_slice_def go_copy_def logical_def numeral_eq_Suc)

text \<open>
  C4, at a failing input. On the same resized ring (length 2, logical sequence 1, 2,
  \<open>head = 0\<close>, \<open>tail = 2\<close>) \<^verbatim>\<open>Rotate\<close> does not see a full ring, because \<open>head\<close> and
  \<open>tail\<close> differ, and runs the loops of the partly filled case. \<^verbatim>\<open>Rotate(1)\<close> panics
  on \<^verbatim>\<open>r.buf[r.tail]\<close>. \<^verbatim>\<open>Rotate(-1)\<close> returns, but \<^verbatim>\<open>At(0)\<close> is then the zero
  value, not \<^verbatim>\<open>At((0 - 1) mod 2)\<close> of before, which is 2: the sequence is 0, 1 and the
  element 2 is lost.
\<close>

theorem Rotate_after_Resize:
  "New 0 3 = Inr ex3_empty \<and>
   PushBack ex3_empty 1 = (Inr (), ex3_1) \<and>
   PushBack ex3_1 2 = (Inr (), ex3_12) \<and>
   PushBack ex3_12 3 = (Inr (), ex3_123) \<and>
   Resize 0 ex3_123 2 = (Inr (), ex2_resized) \<and>
   Len (Some ex2_resized) = 2 \<and> logical ex2_resized = [Inr 1, Inr 2] \<and>
   Rotate 0 (Some ex2_resized) 1 = (Inl RuntimeIndexOutOfRange, Some ex2_resized) \<and>
   Rotate 0 (Some ex2_resized) (- 1) = (Inr (), Some ex2_rotated) \<and>
   logical ex2_rotated = [Inr 0, Inr 1] \<and>
   At (Some ex2_resized) ((0 + - 1) mod Len (Some ex2_resized)) = Inr 2 \<and>
   At (Some ex2_rotated) 0 = Inr 0"
  by (simp add: ex2_defs op_defs Resize_def go_slice_def go_copy_def logical_def
      Rotate_def rotate_ring_def numeral_eq_Suc)




text \<open>
  C6, at a failing input. After \<^verbatim>\<open>New(3)\<close>, three calls of \<^verbatim>\<open>PushBack\<close>,
  \<^verbatim>\<open>Resize(2)\<close> and \<^verbatim>\<open>PopFront()\<close> the ring has length 1 and capacity 2, with
  \<open>tail = 2\<close>. \<^verbatim>\<open>Insert(1, 9)\<close> panics although 1 is inside \<open>[0, count]\<close> and the ring
  is not full: both tests of \<^verbatim>\<open>Insert\<close> pass, and the \<^verbatim>\<open>PushBack\<close> it calls indexes
  the storage out of range. The panic is not one of the stated failures of \<^verbatim>\<open>Insert\<close>.
  The ring is as it was.
\<close>

theorem Insert_panics_in_range_not_full:
  "New 0 3 = Inr ex3_empty \<and>
   PushBack ex3_empty 1 = (Inr (), ex3_1) \<and>
   PushBack ex3_1 2 = (Inr (), ex3_12) \<and>
   PushBack ex3_12 3 = (Inr (), ex3_123) \<and>
   Resize 0 ex3_123 2 = (Inr (), ex2_resized) \<and>
   PopFront 0 ex2_resized = (Inr 1, ex2_popped) \<and>
   Len (Some ex2_popped) = 1 \<and> Cap (Some ex2_popped) = 2 \<and>
   (0::int) \<le> 1 \<and> 1 \<le> Len (Some ex2_popped) \<and>
   Len (Some ex2_popped) \<noteq> Cap (Some ex2_popped) \<and>
   isl (fst (Insert ex2_popped 1 9)) \<and>
   Insert ex2_popped 1 9 = (Inl RuntimeIndexOutOfRange, ex2_popped)"
  by (simp add: ex2_defs op_defs Resize_def go_slice_def go_copy_def Insert_def numeral_eq_Suc)

text \<open>
  C7, at a failing input. The same ring (length 1, capacity 2, logical sequence 2,
  \<open>tail = 2\<close>) is not full and 1 is a position in \<open>[0, Len()]\<close>, but \<^verbatim>\<open>Insert(1, 9)\<close>
  does not return: the logical sequence stays 2 and does not become 2, 9, and a
  \<^verbatim>\<open>Remove(1)\<close> after it panics with the out-of-range text instead of returning 9.
\<close>

theorem Insert_after_Resize_inserts_nothing:
  "New 0 3 = Inr ex3_empty \<and>
   PushBack ex3_empty 1 = (Inr (), ex3_1) \<and>
   PushBack ex3_1 2 = (Inr (), ex3_12) \<and>
   PushBack ex3_12 3 = (Inr (), ex3_123) \<and>
   Resize 0 ex3_123 2 = (Inr (), ex2_resized) \<and>
   PopFront 0 ex2_resized = (Inr 1, ex2_popped) \<and>
   \<not> Full ex2_popped \<and> logical ex2_popped = [Inr 2] \<and>
   fst (Insert ex2_popped 1 9) = Inl RuntimeIndexOutOfRange \<and>
   logical (snd (Insert ex2_popped 1 9)) = [Inr 2] \<and>
   take (nat 1) (logical ex2_popped) @ Inr 9 # drop (nat 1) (logical ex2_popped)
     = [Inr 2, Inr 9] \<and>
   Remove 0 (snd (Insert ex2_popped 1 9)) 1 = (Inl (OutOfRangeText 1 1), ex2_popped)"
  by (simp add: ex2_defs op_defs Resize_def go_slice_def go_copy_def Insert_def Remove_def
      logical_def numeral_eq_Suc)

text \<open>
  C8. On a ring that satisfies \<open>reach_inv\<close> (every state a ring can be in does), for a
  valid index \<open>i\<close>: \<^verbatim>\<open>Set(i, v)\<close> returns, \<^verbatim>\<open>At(i)\<close> then returns \<open>v\<close>, at
  every other valid index \<^verbatim>\<open>At\<close> returns the element it returned before, and
  \<^verbatim>\<open>Len()\<close> and \<^verbatim>\<open>Cap()\<close> are unchanged.
\<close>

theorem Set_then_At:
  assumes "reach_inv r" "0 \<le> i" "i < Len (Some r)"
  shows "\<exists>r'. Set (Some r) i v = (Inr (), Some r') \<and> At (Some r') i = Inr v \<and>
     (\<forall>j. 0 \<le> j \<and> j < Len (Some r) \<and> j \<noteq> i \<longrightarrow>
        At (Some r') j = At (Some r) j \<and> \<not> isl (At (Some r) j)) \<and>
     Len (Some r') = Len (Some r) \<and> Cap (Some r') = Cap (Some r)"
proof -
  have c: "i < count r" using assms(3) by (simp add: Len_def)
  have l: "0 < buf_len r" using assms c by (auto simp: reach_inv_def split: if_splits)
  note p = reach_inv_pos[OF assms(1) l]
  obtain res ro' where s: "Set (Some r) i v = (res, ro')" by (cases "Set (Some r) i v")
  from Set_lg[OF assms(1,2) c s] obtain r' where r':
    "ro' = Some r'" "res = Inr ()" "head r' = head r" "tail r' = tail r"
    "count r' = count r" "buf_len r' = buf_len r"
    "\<And>j. 0 \<le> j \<Longrightarrow> j < buf_len r \<Longrightarrow> lg r' j = (if j = i then v else lg r j)"
    by blast
  have inv': "reach_inv r'" using reach_inv_cong[OF assms(1) r'(3-6)] .
  have a: "At (Some r') j = Inr (lg r' j)" if "0 \<le> j" "j < count r" for j
    using At_lg[OF inv', of j] that r'(5) by simp
  have b: "At (Some r) j = Inr (lg r j)" if "0 \<le> j" "j < count r" for j
    using At_lg[OF assms(1), of j] that by simp
  have "At (Some r') i = Inr v" using a[OF assms(2) c] r'(7)[of i] assms(2) c p by simp
  moreover have "At (Some r') j = At (Some r) j \<and> \<not> isl (At (Some r) j)"
    if "0 \<le> j" "j < count r" "j \<noteq> i" for j
    using a[OF that(1,2)] b[OF that(1,2)] r'(7)[of j] that p by simp
  ultimately show ?thesis using s r' by (simp add: Len_def Cap_def)
qed

theorem Set_then_At_witness:
  "reach_inv ex4_78 \<and> 0 \<le> (1::int) \<and> 1 < Len (Some ex4_78) \<and>
   (\<exists>r'. Set (Some ex4_78) 1 9 = (Inr (), Some r') \<and> At (Some r') 1 = Inr 9 \<and>
     (\<forall>j. 0 \<le> j \<and> j < Len (Some ex4_78) \<and> j \<noteq> 1 \<longrightarrow>
        At (Some r') j = At (Some ex4_78) j \<and> \<not> isl (At (Some ex4_78) j)) \<and>
     Len (Some r') = Len (Some ex4_78) \<and> Cap (Some r') = Cap (Some ex4_78))"
proof -
  have h: "reach_inv ex4_78" by (simp add: ex4_78_def reach_inv_def buf_len_def)
  have c: "(1::int) < Len (Some ex4_78)" by (simp add: ex4_78_def Len_def)
  show ?thesis using h c Set_then_At[OF h _ c, of 9] by simp
qed

text \<open>
  C9. In every state a ring can be in (\<open>reachable\<close>: from \<^verbatim>\<open>New\<close>, through any
  sequence of the methods that assign to the ring, returning or panicking), every
  storage slot that holds no logical element holds the zero value \<open>z\<close>. In particular
  this holds after \<^verbatim>\<open>PopFront\<close>, \<^verbatim>\<open>PopBack\<close>, \<^verbatim>\<open>Remove\<close> and \<^verbatim>\<open>Rotate\<close>, which
  vacate slots. \<^verbatim>\<open>Reset\<close> returns, and after it every slot of the storage is \<open>z\<close>,
  \<^verbatim>\<open>Len()\<close> is 0 and \<^verbatim>\<open>Cap()\<close> is unchanged.
\<close>

theorem gaps_hold_zero:
  assumes "reachable z r"
  shows "gaps_zero z r \<and>
     gaps_zero z (snd (PopFront z r)) \<and> gaps_zero z (snd (PopBack z r)) \<and>
     gaps_zero z (snd (Remove z r at)) \<and>
     (\<forall>r'. snd (Rotate z (Some r) n) = Some r' \<longrightarrow> gaps_zero z r') \<and>
     (\<exists>r'. Reset z r = (Inr (), r') \<and> buf r' = replicate (length (buf r)) z \<and>
        Len (Some r') = 0 \<and> Cap (Some r') = Cap (Some r))"
proof -
  have 1: "gaps_zero z r" using assms by (rule reachable_gaps_zero)
  have 2: "gaps_zero z (snd (PopFront z r))"
    using assms by (intro reachable_gaps_zero reach_PopFront)
  have 3: "gaps_zero z (snd (PopBack z r))"
    using assms by (intro reachable_gaps_zero reach_PopBack)
  have 4: "gaps_zero z (snd (Remove z r at))"
    using assms by (intro reachable_gaps_zero reach_Remove)
  have 5: "\<forall>r'. snd (Rotate z (Some r) n) = Some r' \<longrightarrow> gaps_zero z r'"
    using assms by (blast intro: reachable_gaps_zero reach_Rotate)
  from Reset_ok[OF reachable_ok[OF assms]] obtain r' where r': "Reset z r = (Inr (), r')"
    "buf r' = replicate (length (buf r)) z" "count r' = 0"
    by blast
  have 6: "\<exists>r'. Reset z r = (Inr (), r') \<and> buf r' = replicate (length (buf r)) z \<and>
        Len (Some r') = 0 \<and> Cap (Some r') = Cap (Some r)"
    using r' by (simp add: Len_def Cap_def buf_len_def)
  show ?thesis using 1 2 3 4 5 6 by blast
qed

theorem gaps_hold_zero_witness:
  "reachable 0 ex4_78 \<and> gaps_zero 0 ex4_78 \<and>
   gaps_zero 0 (snd (PopFront 0 ex4_78)) \<and> gaps_zero 0 (snd (PopBack 0 ex4_78)) \<and>
   gaps_zero 0 (snd (Remove 0 ex4_78 1)) \<and>
   (\<exists>r'. snd (Rotate 0 (Some ex4_78) 1) = Some r' \<and> gaps_zero 0 r') \<and>
   (\<exists>r'. Reset 0 ex4_78 = (Inr (), r') \<and> buf r' = replicate (length (buf ex4_78)) 0 \<and>
      Len (Some r') = 0 \<and> Cap (Some r') = Cap (Some ex4_78))"
proof -
  note h = ex4_78_reachable
  note t = gaps_hold_zero[OF h, of 1 1]
  obtain r' where r': "snd (Rotate 0 (Some ex4_78) 1) = Some r'"
    using Rotate_Some[of 0 ex4_78 1] by blast
  then have "gaps_zero 0 r'" using t by blast
  then have "\<exists>r'. snd (Rotate 0 (Some ex4_78) 1) = Some r' \<and> gaps_zero 0 r'"
    using r' by blast
  then show ?thesis using h t by blast
qed

text \<open>
  C10. On a nil ring, \<^verbatim>\<open>At(i)\<close> and \<^verbatim>\<open>Set(i, item)\<close> panic with the out-of-range text
  for index \<open>i\<close> and length 0, for every \<open>i\<close>: the bounds check goes through \<^verbatim>\<open>Len()\<close>,
  which is 0 on a nil receiver, so the nil ring is never dereferenced; \<^verbatim>\<open>Set\<close> leaves
  it nil.
\<close>

theorem nil_ring_At_Set:
  "At None i = Inl (OutOfRangeText i 0) \<and> Set None i item = (Inl (OutOfRangeText i 0), None)"
  by (simp add: At_def Set_def Len_def) linarith

end
